theory Spec2Isabelle
  imports Complex_Main "HOL-Library.Word"
begin

section \<open>Lettercrap: settings, frame compositor and element lifecycle\<close>

text \<open>
  A shallow embedding of \<^verbatim>\<open>src/lettercrap.ts\<close>. JavaScript strings are modelled as
  \<open>string\<close> (lists of 8-bit code units), thrown errors and rejected promises as values
  of the type \<open>error\<close>, and module-level mutable state and the document as an explicit
  store that every operation takes and returns.
\<close>

datatype error =
    InvalidSettings              \<comment> \<open>\<^verbatim>\<open>Error('Invalid settings')\<close>\<close>
  | ElementNotInitialized        \<comment> \<open>\<^verbatim>\<open>Error('Element not initialized')\<close>\<close>
  | InputNotNode                 \<comment> \<open>\<^verbatim>\<open>Error('Input is not a Node instance')\<close>\<close>
  | NoImageData                  \<comment> \<open>\<^verbatim>\<open>Error('No image data provided')\<close>\<close>
  | ArrayIndexOutOfBound         \<comment> \<open>\<^verbatim>\<open>Error('Array index out of bound')\<close>\<close>
  | ImageError                   \<comment> \<open>the event passed to \<^verbatim>\<open>image.onerror\<close>\<close>

subsection \<open>Parameter validation\<close>

text \<open>
  \<^verbatim>\<open>String.prototype.trim\<close> removes the code units of ECMAScript's WhiteSpace and
  LineTerminator productions from both ends; these are the ones that fit in 8 bits.
\<close>

definition isWhiteSpace :: "char \<Rightarrow> bool" where
  "isWhiteSpace c \<longleftrightarrow>
     c = CHR 0x09 \<or> c = CHR 0x0A \<or> c = CHR 0x0B \<or> c = CHR 0x0C \<or> c = CHR 0x0D \<or>
     c = CHR 0x20 \<or> c = CHR 0xA0"

definition trim :: "string \<Rightarrow> string" where
  "trim str = rev (dropWhile isWhiteSpace (rev (dropWhile isWhiteSpace str)))"

definition isStringNonBlank :: "string \<Rightarrow> bool" where
  "isStringNonBlank str \<longleftrightarrow> length (trim str) > 0"

definition isArrayStringNonBlank :: "string list \<Rightarrow> bool" where
  "isArrayStringNonBlank arr \<longleftrightarrow> list_all (\<lambda>word. isStringNonBlank word) arr"

text \<open>
  A JavaScript \<^verbatim>\<open>number\<close>: a finite value, an infinity or \<^verbatim>\<open>NaN\<close>. Finite values are
  read as reals; rounding plays no part in what follows.
\<close>

datatype number = Num real | Infinity | MinusInfinity | NaN

text \<open>\<^verbatim>\<open>num >= 0\<close>: every comparison with \<^verbatim>\<open>NaN\<close> is false.\<close>

fun isNumberNonNegative :: "number \<Rightarrow> bool" where
  "isNumberNonNegative (Num r) \<longleftrightarrow> r \<ge> 0"
| "isNumberNonNegative Infinity \<longleftrightarrow> True"
| "isNumberNonNegative MinusInfinity \<longleftrightarrow> False"
| "isNumberNonNegative NaN \<longleftrightarrow> False"

subsection \<open>Global settings\<close>

record Config =
  content :: string
  letters :: string
  words :: "string list"
  font_family :: string
  font_weight :: string
  update_interval :: number

definition config\<^sub>0 :: Config where
  "config\<^sub>0 = \<lparr> content = ''LETTERCRAP'', letters = ''01'', words = [],
      font_family = ''monospace'', font_weight = ''normal'', update_interval = Num 150 \<rparr>"

definition fontWeights :: "string list" where
  "fontWeights = [''100'', ''200'', ''300'', ''400'', ''500'', ''600'', ''700'', ''800'', ''900'',
     ''lighter'', ''normal'', ''bold'', ''bolder'']"

definition isConfigValid :: "Config \<Rightarrow> bool" where
  "isConfigValid cfg \<longleftrightarrow>
     (let validContent = isStringNonBlank (content cfg);
          validLetters = isStringNonBlank (letters cfg);
          validWords = isArrayStringNonBlank (words cfg);
          validUpdateInterval = isNumberNonNegative (update_interval cfg)
      in validContent \<and> validLetters \<and> validWords \<and> validUpdateInterval)"

text \<open>
  A \<^verbatim>\<open>Partial<Config>\<close>: every field is either present or \<^verbatim>\<open>undefined\<close>
  (\<open>None\<close>; an absent key reads as \<^verbatim>\<open>undefined\<close> too).
\<close>

record PartialConfig =
  content\<^sub>u :: "string option"
  letters\<^sub>u :: "string option"
  words\<^sub>u :: "string list option"
  font_family\<^sub>u :: "string option"
  font_weight\<^sub>u :: "string option"
  update_interval\<^sub>u :: "number option"

definition no_update :: PartialConfig where
  "no_update = \<lparr> content\<^sub>u = None, letters\<^sub>u = None, words\<^sub>u = None,
      font_family\<^sub>u = None, font_weight\<^sub>u = None, update_interval\<^sub>u = None \<rparr>"

text \<open>\<^verbatim>\<open>a ?? b\<close>: the left operand unless it is \<^verbatim>\<open>undefined\<close>.\<close>

definition nullish :: "'a option \<Rightarrow> 'a \<Rightarrow> 'a" where
  "nullish a b = (case a of Some v \<Rightarrow> v | None \<Rightarrow> b)"

text \<open>
  \<^verbatim>\<open>{ ...config, ...cleanUserConfig }\<close>: the entries of the update that are not
  \<^verbatim>\<open>undefined\<close> override those of the stored configuration.
\<close>

definition preview :: "Config \<Rightarrow> PartialConfig \<Rightarrow> Config" where
  "preview cfg userConfig =
     \<lparr> content = (case content\<^sub>u userConfig of Some v \<Rightarrow> v | None \<Rightarrow> content cfg),
       letters = (case letters\<^sub>u userConfig of Some v \<Rightarrow> v | None \<Rightarrow> letters cfg),
       words = (case words\<^sub>u userConfig of Some v \<Rightarrow> v | None \<Rightarrow> words cfg),
       font_family = (case font_family\<^sub>u userConfig of Some v \<Rightarrow> v | None \<Rightarrow> font_family cfg),
       font_weight = (case font_weight\<^sub>u userConfig of Some v \<Rightarrow> v | None \<Rightarrow> font_weight cfg),
       update_interval =
         (case update_interval\<^sub>u userConfig of Some v \<Rightarrow> v | None \<Rightarrow> update_interval cfg) \<rparr>"

datatype key = Content | Letters | Words | FontFamily | FontWeight | UpdateInterval

definition keys :: "key list" where
  "keys = [Content, Letters, Words, FontFamily, FontWeight, UpdateInterval]"

text \<open>\<^verbatim>\<open>config[key] = userConfig[key] ?? config[key]\<close>\<close>

fun assign :: "PartialConfig \<Rightarrow> Config \<Rightarrow> key \<Rightarrow> Config" where
  "assign userConfig cfg Content = cfg\<lparr>content := nullish (content\<^sub>u userConfig) (content cfg)\<rparr>"
| "assign userConfig cfg Letters = cfg\<lparr>letters := nullish (letters\<^sub>u userConfig) (letters cfg)\<rparr>"
| "assign userConfig cfg Words = cfg\<lparr>words := nullish (words\<^sub>u userConfig) (words cfg)\<rparr>"
| "assign userConfig cfg FontFamily =
     cfg\<lparr>font_family := nullish (font_family\<^sub>u userConfig) (font_family cfg)\<rparr>"
| "assign userConfig cfg FontWeight =
     cfg\<lparr>font_weight := nullish (font_weight\<^sub>u userConfig) (font_weight cfg)\<rparr>"
| "assign userConfig cfg UpdateInterval =
     cfg\<lparr>update_interval := nullish (update_interval\<^sub>u userConfig) (update_interval cfg)\<rparr>"

text \<open>
  \<open>configure\<close> returns the outcome of the call (\<open>Inl\<close> the thrown error) and the stored
  configuration after it.
\<close>

definition configure :: "PartialConfig \<Rightarrow> Config \<Rightarrow> (error + unit) \<times> Config" where
  "configure userConfig cfg =
     (if \<not> isConfigValid (preview cfg userConfig) then (Inl InvalidSettings, cfg)
      else (Inr (), foldl (assign userConfig) cfg keys))"

subsection \<open>Frame compositor\<close>

text \<open>
  The object returned by \<^verbatim>\<open>context.getImageData\<close>: the canvas raster the image was
  drawn into, four bytes (red, green, blue, alpha) per cell, row by row. Scaling and
  drawing the image are the browser's; the compositor is modelled from this value on.
\<close>

record ImageData =
  width :: nat
  height :: nat
  data :: "8 word list"

text \<open>
  \<^verbatim>\<open>Math.random\<close> is modelled by the sequence of values its successive calls return
  during one call of the compositor; a counter in the loop state says how many were
  consumed. The thresholds \<^verbatim>\<open>0.1\<close> and \<^verbatim>\<open>0.05\<close> are read as the reals \<open>1/10\<close>
  and \<open>1/20\<close>.
\<close>

type_synonym random = "nat \<Rightarrow> real"

definition LF :: char where "LF = CHR 0x0A"
definition CR :: char where "CR = CHR 0x0D"

text \<open>\<^verbatim>\<open>existingText.replace(/\r?\n|\r/g, '')\<close>, scanning left to right.\<close>

fun strip_line_breaks :: "string \<Rightarrow> string" where
  "strip_line_breaks [] = []"
| "strip_line_breaks (c # cs) =
     (if c = CR then (case cs of [] \<Rightarrow> [] | c' # cs' \<Rightarrow>
          if c' = LF then strip_line_breaks cs' else strip_line_breaks cs)
      else if c = LF then strip_line_breaks cs
      else c # strip_line_breaks cs)"

text \<open>\<^verbatim>\<open>!existingText\<close>: true of \<^verbatim>\<open>undefined\<close> and of the empty string.\<close>

definition falsy :: "string option \<Rightarrow> bool" where
  "falsy v \<longleftrightarrow> (case v of None \<Rightarrow> True | Some str \<Rightarrow> str = [])"

text \<open>
  The three random helpers take the number of \<^verbatim>\<open>Math.random\<close> calls made so far and
  return it updated. \<open>shouldReplaceExistingText\<close> draws only when there is previous text
  (\<^verbatim>\<open>||\<close> short-circuits).
\<close>

definition shouldReplaceWord :: "random \<Rightarrow> nat \<Rightarrow> bool \<times> nat" where
  "shouldReplaceWord rnd n = (rnd n < 5 / 100, n + 1)"

definition shouldReplaceExistingText :: "random \<Rightarrow> string option \<Rightarrow> nat \<Rightarrow> bool \<times> nat" where
  "shouldReplaceExistingText rnd existingText n =
     (if falsy existingText then (True, n) else (rnd n < 1 / 10, n + 1))"

text \<open>
  \<^verbatim>\<open>list[Math.floor(Math.random() * list.length)]\<close>: an index outside the list reads
  \<^verbatim>\<open>undefined\<close> (\<open>None\<close>). The product is taken over the reals; the code rounds it
  to a double, which can move the index to the next element when the product lies just
  below an integer, and never moves it out of the list. Nothing below says which
  element is chosen.
\<close>

definition randomChoice :: "random \<Rightarrow> 'a list \<Rightarrow> nat \<Rightarrow> 'a option \<times> nat" where
  "randomChoice rnd list n =
     (let k = \<lfloor>rnd n * real (length list)\<rfloor>
      in (if 0 \<le> k \<and> k < int (length list) then Some (list ! nat k) else None, n + 1))"

text \<open>\<^verbatim>\<open>str[i]\<close>: the code unit at \<open>i\<close> as a string, \<^verbatim>\<open>undefined\<close> out of range.\<close>

definition char_at :: "string \<Rightarrow> nat \<Rightarrow> string option" where
  "char_at str k = (if k < length str then Some [str ! k] else None)"

text \<open>\<^verbatim>\<open>letters.split('')\<close>\<close>

definition split_chars :: "string \<Rightarrow> string list" where
  "split_chars str = map (\<lambda>c. [c]) str"

text \<open>What \<^verbatim>\<open>chars += v\<close> appends for a value that is a string or \<^verbatim>\<open>undefined\<close>.\<close>

definition to_string :: "string option \<Rightarrow> string" where
  "to_string v = (case v of Some str \<Rightarrow> str | None \<Rightarrow> ''undefined'')"

text \<open>The variables of the two nested loops; \<open>idx\<close> is the source's \<^verbatim>\<open>i\<close>.\<close>

record loop =
  chars :: string
  start_of_filled_in_sequence :: "nat option"
  idx :: nat
  random_calls :: nat

text \<open>
  Line 340, the value appended at a filled cell: a random letter when
  \<open>shouldReplaceExistingText\<close> says so, else \<^verbatim>\<open>existingText![i]\<close>. \<open>k\<close> is the cell
  index and \<open>n\<close> the number of random calls made so far.
\<close>

definition emit_char ::
  "random \<Rightarrow> string option \<Rightarrow> string \<Rightarrow> nat \<Rightarrow> nat \<Rightarrow> string option \<times> nat" where
  "emit_char rnd existingText ltrs k n =
     (let (replace, n1) = shouldReplaceExistingText rnd existingText n
      in if replace then randomChoice rnd (split_chars ltrs) n1
         else (case existingText of Some str \<Rightarrow> char_at str k | None \<Rightarrow> None, n1))"

text \<open>
  Lines 341 to 346, the word injection that follows: \<open>start\<close> is the start of the
  current run and \<open>cs\<close> the characters emitted so far. The conditions of \<^verbatim>\<open>&&\<close> are
  evaluated left to right and stop at the first that fails.
\<close>

definition inject_word ::
  "random \<Rightarrow> string option \<Rightarrow> string list \<Rightarrow> nat \<Rightarrow> nat \<Rightarrow> string \<Rightarrow> nat \<Rightarrow> string \<times> nat" where
  "inject_word rnd existingText wrds k start cs n =
     (if length wrds > 0 then
        (let (replaceWord, n1) = shouldReplaceWord rnd n
         in if replaceWord then
              (let (replaceText, n2) = shouldReplaceExistingText rnd existingText n1
               in if replaceText then
                    (let (word, n3) = randomChoice rnd wrds n2
                     in case word of
                          None \<Rightarrow> (cs, n3)
                        | Some word \<Rightarrow>
                            if word \<noteq> [] \<and> int k + 1 - int start \<ge> int (length word)
                            then (take (length cs - length word) cs @ word, n3)
                            else (cs, n3))
                  else (cs, n2))
            else (cs, n1))
      else (cs, n))"

text \<open>Lines 339 to 346: the body of the loop at a filled cell.\<close>

definition filled_cell ::
  "random \<Rightarrow> string option \<Rightarrow> string list \<Rightarrow> string \<Rightarrow> loop \<Rightarrow> loop" where
  "filled_cell rnd existingText wrds ltrs s =
     (let start = (case start_of_filled_in_sequence s of None \<Rightarrow> idx s | Some b \<Rightarrow> b);
          (c, n1) = emit_char rnd existingText ltrs (idx s) (random_calls s);
          (cs, n2) = inject_word rnd existingText wrds (idx s) start (chars s @ to_string c) n1
      in s\<lparr>chars := cs, start_of_filled_in_sequence := Some start, idx := idx s + 1,
            random_calls := n2\<rparr>)"

text \<open>Lines 332 to 351: one iteration of the inner loop.\<close>

definition cell ::
  "random \<Rightarrow> ImageData \<Rightarrow> string option \<Rightarrow> string list \<Rightarrow> string \<Rightarrow> loop \<Rightarrow> error + loop" where
  "cell rnd d existingText wrds ltrs s =
     (case take 4 (drop (idx s * 4) (data d)) of
        r # g # b # a # _ \<Rightarrow>
          (let black = r < 120; transparent = a < 50
           in if black \<and> \<not> transparent then Inr (filled_cell rnd existingText wrds ltrs s)
              else Inr (s\<lparr>chars := chars s @ '' '', start_of_filled_in_sequence := None,
                          idx := idx s + 1\<rparr>))
      | _ \<Rightarrow> Inl ArrayIndexOutOfBound)"

text \<open>\<^verbatim>\<open>for (const _x of Array(data.width).keys())\<close>, with \<open>n\<close> iterations left.\<close>

fun row_loop ::
  "random \<Rightarrow> ImageData \<Rightarrow> string option \<Rightarrow> string list \<Rightarrow> string \<Rightarrow> nat \<Rightarrow> loop \<Rightarrow> error + loop"
where
  "row_loop rnd d existingText wrds ltrs 0 s = Inr s"
| "row_loop rnd d existingText wrds ltrs (Suc n) s =
     (case cell rnd d existingText wrds ltrs s of
        Inl e \<Rightarrow> Inl e
      | Inr s' \<Rightarrow> row_loop rnd d existingText wrds ltrs n s')"

text \<open>\<^verbatim>\<open>for (const _y of Array(data.height).keys())\<close>, with \<open>n\<close> iterations left.\<close>

fun rows_loop ::
  "random \<Rightarrow> ImageData \<Rightarrow> string option \<Rightarrow> string list \<Rightarrow> string \<Rightarrow> nat \<Rightarrow> loop \<Rightarrow> error + loop"
where
  "rows_loop rnd d existingText wrds ltrs 0 s = Inr s"
| "rows_loop rnd d existingText wrds ltrs (Suc n) s =
     (case row_loop rnd d existingText wrds ltrs (width d) s of
        Inl e \<Rightarrow> Inl e
      | Inr s' \<Rightarrow>
          rows_loop rnd d existingText wrds ltrs n
            (s'\<lparr>chars := chars s' @ [LF], start_of_filled_in_sequence := None\<rparr>))"

definition loop\<^sub>0 :: loop where
  "loop\<^sub>0 = \<lparr> chars = [], start_of_filled_in_sequence = Some 0, idx = 0, random_calls = 0 \<rparr>"

definition getTextContentWithImageAtSize ::
  "random \<Rightarrow> ImageData \<Rightarrow> string option \<Rightarrow> string list \<Rightarrow> string \<Rightarrow> error + string" where
  "getTextContentWithImageAtSize rnd d existingText wrds ltrs =
     (let existingText = map_option strip_line_breaks existingText
      in case rows_loop rnd d existingText wrds ltrs (height d) loop\<^sub>0 of
           Inl e \<Rightarrow> Inl e
         | Inr s \<Rightarrow> Inr (chars s))"

text \<open>
  The classification of lines 336 to 338 as a predicate of the cell index: the cell's
  red byte is below 120 and its alpha byte is not below 50.
\<close>

definition is_filled :: "ImageData \<Rightarrow> nat \<Rightarrow> bool" where
  "is_filled d k \<longleftrightarrow>
     (case take 4 (drop (k * 4) (data d)) of
        r # g # b # a # _ \<Rightarrow> r < 120 \<and> \<not> a < 50
      | _ \<Rightarrow> False)"

text \<open>The start of the run a filled cell belongs to (line 339).\<close>

definition run_start :: "loop \<Rightarrow> nat" where
  "run_start s = (case start_of_filled_in_sequence s of None \<Rightarrow> idx s | Some b \<Rightarrow> b)"

text \<open>
  What a frame holds at cell \<open>k\<close>: a character of the set \<open>A\<close> where the cell is filled,
  a space where it is empty.
\<close>

definition cell_ok :: "ImageData \<Rightarrow> char set \<Rightarrow> nat \<Rightarrow> char \<Rightarrow> bool" where
  "cell_ok d A k c \<longleftrightarrow> (if is_filled d k then c \<in> A else c = CHR '' '')"

text \<open>
  The loop invariant of a frame whose cells satisfy \<open>cell_ok\<close>, before the iteration at
  row \<open>y\<close> and column \<open>x\<close>: the text emitted so far is \<open>y\<close> complete rows, each followed
  by a line feed, and the first \<open>x\<close> cells of the current row; a run that is open
  started in this row and covers filled cells only.
\<close>

definition frame_inv :: "ImageData \<Rightarrow> char set \<Rightarrow> nat \<Rightarrow> nat \<Rightarrow> loop \<Rightarrow> bool" where
  "frame_inv d A y x s \<longleftrightarrow>
     (\<exists>rows cur.
        chars s = concat (map (\<lambda>r. r @ [LF]) rows) @ cur \<and> length rows = y \<and>
        (\<forall>y'<y. length (rows ! y') = width d \<and>
           (\<forall>x'<width d. cell_ok d A (y' * width d + x') (rows ! y' ! x'))) \<and>
        length cur = x \<and> (\<forall>x'<x. cell_ok d A (y * width d + x') (cur ! x'))) \<and>
     idx s = y * width d + x \<and>
     (\<forall>b. start_of_filled_in_sequence s = Some b \<longrightarrow>
        y * width d \<le> b \<and> b \<le> idx s \<and> (\<forall>j. b \<le> j \<and> j < idx s \<longrightarrow> is_filled d j))"

text \<open>
  The two loops as a step relation: \<open>visits rnd d e wrds ltrs y x s\<close> says that a run of
  the compositor on raster \<open>d\<close> and stripped previous text \<open>e\<close> arrives with loop state
  \<open>s\<close> before the iteration at row \<open>y\<close> and column \<open>x\<close> (\<open>x = width d\<close>: at the end
  of row \<open>y\<close>).
\<close>

inductive visits ::
  "random \<Rightarrow> ImageData \<Rightarrow> string option \<Rightarrow> string list \<Rightarrow> string \<Rightarrow> nat \<Rightarrow> nat \<Rightarrow> loop \<Rightarrow> bool"
  for rnd d e wrds ltrs
where
  start: "visits rnd d e wrds ltrs 0 0 loop\<^sub>0"
| cell: "visits rnd d e wrds ltrs y x s \<Longrightarrow> y < height d \<Longrightarrow> x < width d \<Longrightarrow>
         cell rnd d e wrds ltrs s = Inr s' \<Longrightarrow> visits rnd d e wrds ltrs y (Suc x) s'"
| row_end: "visits rnd d e wrds ltrs y x s \<Longrightarrow> y < height d \<Longrightarrow> x = width d \<Longrightarrow>
         visits rnd d e wrds ltrs (Suc y) 0
           (s\<lparr>chars := chars s @ [LF], start_of_filled_in_sequence := None\<rparr>)"

code_pred visits .

subsection \<open>Element lifecycle\<close>

text \<open>
  An \<^verbatim>\<open>HTMLDivElement\<close> is known by its identity. The page is the module state
  (\<open>config\<close>, \<open>instances\<close>) together with what the code reads and writes of the document:
  the elements' attributes, text content and \<^verbatim>\<open>style.height\<close>, the timers that run
  and the targets each \<^verbatim>\<open>ResizeObserver\<close> observes. \<open>fresh\<close> numbers the handles
  handed out by \<^verbatim>\<open>setInterval\<close> and \<^verbatim>\<open>new ResizeObserver\<close>, \<open>frames\<close> counts the calls
  of the compositor. A call of \<open>initElement\<close> or \<open>resetElement\<close> is followed from its
  start to the settling of its promise, with no other call in between; the later
  ticks of a timer and the callbacks of an observer are not followed.
\<close>

type_synonym element = nat

record InitializedInstance =
  intervalId :: nat
  observer :: nat

record page =
  config :: Config
  instances :: "element \<rightharpoonup> InitializedInstance"
  attributes :: "element \<Rightarrow> string \<rightharpoonup> string"
  textContent :: "element \<Rightarrow> string option"
  style_height :: "element \<Rightarrow> string"
  intervals :: "nat set"
  observers :: "nat \<Rightarrow> element set"
  fresh :: nat
  frames :: nat

text \<open>
  What the browser contributes, taken as parameters: \<open>textImage\<close> is \<^verbatim>\<open>createSVG\<close>
  followed by \<^verbatim>\<open>getImageData\<close> (the data URL of the rendered text, \<open>None\<close> when
  the image fails to load); \<open>loadImage\<close> tells whether an image source loads (an image
  is known by its source); \<open>canvas\<close> is the raster read back in the compositor for an
  image and the element's client width and height; \<open>lockedHeight\<close> is the CSS text
  \<^verbatim>\<open>${width * aspect}px\<close> computed from the aspect-ratio attribute, the image and the
  client width; \<open>random k\<close> is the sequence of \<^verbatim>\<open>Math.random\<close> values during the
  \<open>k\<close>-th call of the compositor.
\<close>

type_synonym image = string

record env =
  textImage :: "string \<Rightarrow> string \<Rightarrow> string \<Rightarrow> string option"
  loadImage :: "string \<Rightarrow> image option"
  clientWidth :: "element \<Rightarrow> nat"
  clientHeight :: "element \<Rightarrow> nat"
  canvas :: "image \<Rightarrow> nat \<Rightarrow> nat \<Rightarrow> ImageData"
  lockedHeight :: "string option \<Rightarrow> image \<Rightarrow> nat \<Rightarrow> string"
  parseInt :: "string \<Rightarrow> number"
  toString :: "number \<Rightarrow> string"
  random :: "nat \<Rightarrow> random"

text \<open>
  How a promise ends: resolved, rejected with an error, or never settled because the
  error was thrown inside an event handler (\<^verbatim>\<open>image.onload\<close>), where no promise
  catches it.
\<close>

datatype outcome = Resolved | Rejected error | Unsettled error

text \<open>\<^verbatim>\<open>str.split(' ')\<close>\<close>

fun split_on :: "char \<Rightarrow> string \<Rightarrow> string list" where
  "split_on sep [] = [[]]"
| "split_on sep (c # cs) =
     (if c = sep then [] # split_on sep cs
      else (case split_on sep cs of w # ws \<Rightarrow> (c # w) # ws | [] \<Rightarrow> [[c]]))"

text \<open>\<^verbatim>\<open>element.getAttribute(name)\<close>, \<open>None\<close> for \<^verbatim>\<open>null\<close>.\<close>

definition getAttribute :: "page \<Rightarrow> element \<Rightarrow> string \<Rightarrow> string option" where
  "getAttribute pg element name = attributes pg element name"

definition setAttribute :: "element \<Rightarrow> string \<Rightarrow> string \<Rightarrow> page \<Rightarrow> page" where
  "setAttribute element name v pg =
     pg\<lparr>attributes := (attributes pg)(element := (attributes pg element)(name \<mapsto> v))\<rparr>"

text \<open>\<open>InitializedInstance.destroy\<close>: \<^verbatim>\<open>clearInterval\<close> and \<^verbatim>\<open>observer.disconnect\<close>.\<close>

definition destroy :: "InitializedInstance \<Rightarrow> page \<Rightarrow> page" where
  "destroy metadata pg =
     pg\<lparr>intervals := intervals pg - {intervalId metadata},
        observers := (observers pg)(observer metadata := {})\<rparr>"

text \<open>Every value of the parameter's type \<^verbatim>\<open>HTMLDivElement\<close> is a \<^verbatim>\<open>Node\<close>.\<close>

definition instanceofNode :: "element \<Rightarrow> bool" where
  "instanceofNode element \<longleftrightarrow> True"

definition resetElement :: "element \<Rightarrow> page \<Rightarrow> outcome \<times> page" where
  "resetElement element pg =
     (case instances pg element of
        Some metadata \<Rightarrow>
          if instanceofNode element then
            (let pg1 = destroy metadata pg;
                 pg2 = pg1\<lparr>instances := (instances pg1)(element := None)\<rparr>;
                 pg3 = pg2\<lparr>textContent := (textContent pg2)(element := None)\<rparr>;
                 pg4 = pg3\<lparr>style_height := (style_height pg3)(element := '''')\<rparr>
             in (Resolved, pg4))
          else (Rejected InputNotNode, pg)
      | None \<Rightarrow> (Rejected ElementNotInitialized, pg))"

text \<open>
  \<open>render\<close> (lines 268 to 300) returns the instance or the error thrown, and the page
  as it is then. \<open>resetText\<close> runs before the settings are checked, the observer is
  created before the first \<open>write\<close>, and \<^verbatim>\<open>setInterval(write(), interval)\<close> runs
  \<open>write\<close> once before the timer exists.
\<close>

definition render ::
  "env \<Rightarrow> element \<Rightarrow> image \<Rightarrow> page \<Rightarrow> (error + InitializedInstance) \<times> page" where
  "render env element img pg =
     (let pg1 = pg\<lparr>style_height := (style_height pg)(element :=
                   lockedHeight env (getAttribute pg element ''data-lettercrap-aspect-ratio'') img
                     (clientWidth env element))\<rparr>;
          ltrs = trim (nullish (getAttribute pg element ''data-lettercrap-letters'')
                   (letters (config pg)));
          wrds = (case getAttribute pg element ''data-lettercrap-words'' of
                    Some a \<Rightarrow> split_on CHR '' '' a
                  | None \<Rightarrow> words (config pg));
          interval = parseInt env
                   (nullish (getAttribute pg element ''data-lettercrap-update-interval'')
                      (toString env (update_interval (config pg))))
      in if \<not> isStringNonBlank ltrs \<or> \<not> isArrayStringNonBlank wrds \<or>
            \<not> isNumberNonNegative interval
         then (Inl InvalidSettings, pg1)
         else
           (let obs = fresh pg1;
                pg2 = pg1\<lparr>observers := (observers pg1)(obs := {element}), fresh := fresh pg1 + 1\<rparr>;
                d = canvas env img (clientWidth env element) (clientHeight env element);
                pg3 = pg2\<lparr>frames := frames pg2 + 1\<rparr>
            in case getTextContentWithImageAtSize (random env (frames pg2)) d None wrds ltrs of
                 Inl err \<Rightarrow> (Inl err, pg3)
               | Inr text \<Rightarrow>
                   (let pg4 = pg3\<lparr>textContent := (textContent pg3)(element := Some text)\<rparr>;
                        id = fresh pg4;
                        pg5 = pg4\<lparr>intervals := insert id (intervals pg4), fresh := fresh pg4 + 1\<rparr>
                    in (Inr \<lparr>intervalId = id, observer = obs\<rparr>, pg5))))"

text \<open>
  Lines 191 to 201 of \<open>initElement\<close>: an element with the attribute
  \<^verbatim>\<open>data-lettercrap-text\<close> has its text rendered to an image, after the text and the
  font settings are checked.
\<close>

definition text_to_image :: "env \<Rightarrow> element \<Rightarrow> page \<Rightarrow> error + page" where
  "text_to_image env element pg =
     (if getAttribute pg element ''data-lettercrap-text'' \<noteq> None then
        (let text = nullish (getAttribute pg element ''data-lettercrap-text'') (content (config pg));
             family = nullish (getAttribute pg element ''data-lettercrap-font-family'')
                        (font_family (config pg));
             weight = nullish (getAttribute pg element ''data-lettercrap-font-weight'')
                        (font_weight (config pg))
         in if \<not> isStringNonBlank text \<or> \<not> isStringNonBlank family \<or>
               weight \<notin> set fontWeights
            then Inl InvalidSettings
            else (case textImage env text family weight of
                    None \<Rightarrow> Inl ImageError
                  | Some url \<Rightarrow> Inr (setAttribute element ''data-lettercrap'' url pg)))
      else Inr pg)"

definition initElement :: "env \<Rightarrow> element \<Rightarrow> page \<Rightarrow> outcome \<times> page" where
  "initElement env element pg =
     (if instances pg element \<noteq> None then (Resolved, pg)
      else case text_to_image env element pg of
             Inl err \<Rightarrow> (Rejected err, pg)
           | Inr pg1 \<Rightarrow>
               (case getAttribute pg1 element ''data-lettercrap'' of
                  None \<Rightarrow> (Rejected NoImageData, pg1)
                | Some src \<Rightarrow>
                    if src = [] then (Rejected NoImageData, pg1)
                    else (case loadImage env src of
                            None \<Rightarrow> (Rejected ImageError, pg1)
                          | Some img \<Rightarrow>
                              (case render env element img pg1 of
                                 (Inl err, pg2) \<Rightarrow> (Unsettled err, pg2)
                               | (Inr metadata, pg2) \<Rightarrow>
                                   (Resolved,
                                    pg2\<lparr>instances := (instances pg2)(element \<mapsto> metadata)\<rparr>)))))"

text \<open>
  The two conditions under which \<open>render\<close> returns an instance: the settings pass the
  check of line 279, and the raster read back for the element's size has four bytes for
  every cell (so that the first \<open>write\<close> does not throw).
\<close>

definition render_settings_ok :: "env \<Rightarrow> element \<Rightarrow> page \<Rightarrow> bool" where
  "render_settings_ok env element pg \<longleftrightarrow>
     isStringNonBlank (trim (nullish (getAttribute pg element ''data-lettercrap-letters'')
                   (letters (config pg)))) \<and>
     isArrayStringNonBlank (case getAttribute pg element ''data-lettercrap-words'' of
                    Some a \<Rightarrow> split_on CHR '' '' a
                  | None \<Rightarrow> words (config pg)) \<and>
     isNumberNonNegative (parseInt env
                   (nullish (getAttribute pg element ''data-lettercrap-update-interval'')
                      (toString env (update_interval (config pg)))))"

definition canvas_complete :: "env \<Rightarrow> element \<Rightarrow> image \<Rightarrow> bool" where
  "canvas_complete env element img \<longleftrightarrow>
     (let d = canvas env img (clientWidth env element) (clientHeight env element)
      in width d * height d * 4 \<le> length (data d))"

text \<open>
  The words of the claims about settings: a string is blank when it consists of white
  space only, a number is negative when it is below zero.
\<close>

definition is_blank :: "string \<Rightarrow> bool" where
  "is_blank str \<longleftrightarrow> (\<forall>c\<in>set str. isWhiteSpace c)"

fun is_negative :: "number \<Rightarrow> bool" where
  "is_negative (Num r) \<longleftrightarrow> r < 0"
| "is_negative MinusInfinity \<longleftrightarrow> True"
| "is_negative Infinity \<longleftrightarrow> False"
| "is_negative NaN \<longleftrightarrow> False"

text \<open>
  A browser and a page for the examples: every image loads, every element is six by
  ten pixels and samples to one dark cell, every random draw is one half; the page
  has the default configuration and one element, 7, with an image source.
\<close>

definition env\<^sub>0 :: env where
  "env\<^sub>0 = \<lparr> textImage = (\<lambda>_ _ _. Some ''data:text''), loadImage = (\<lambda>src. Some src),
      clientWidth = (\<lambda>_. 6), clientHeight = (\<lambda>_. 10),
      canvas = (\<lambda>_ _ _. \<lparr>width = 1, height = 1, data = [0, 0, 0, 255]\<rparr>),
      lockedHeight = (\<lambda>_ _ _. ''10px''),
      parseInt = (\<lambda>str. if str = ''150'' then Num 150 else NaN),
      toString = (\<lambda>n. if n = Num 150 then ''150'' else ''NaN''),
      random = (\<lambda>_ _. 1 / 2) \<rparr>"

definition page\<^sub>0 :: page where
  "page\<^sub>0 = \<lparr> config = config\<^sub>0, instances = Map.empty,
      attributes = (\<lambda>_. Map.empty)(7 := [''data-lettercrap'' \<mapsto> ''logo.png'']),
      textContent = (\<lambda>_. None), style_height = (\<lambda>_. ''''), intervals = {},
      observers = (\<lambda>_. {}), fresh = 0, frames = 0 \<rparr>"

section \<open>Properties\<close>

subsection \<open>Validation\<close>

lemma all_dropWhile_iff: "(\<forall>x\<in>set (dropWhile P xs). P x) \<longleftrightarrow> (\<forall>x\<in>set xs. P x)"
  by (induction xs) auto

lemma trim_empty_iff: "trim str = [] \<longleftrightarrow> (\<forall>c\<in>set str. isWhiteSpace c)"
  by (simp add: trim_def all_dropWhile_iff)

lemma isStringNonBlank_iff: "isStringNonBlank str \<longleftrightarrow> (\<exists>c\<in>set str. \<not> isWhiteSpace c)"
  by (simp add: isStringNonBlank_def trim_empty_iff)

lemma isArrayStringNonBlank_iff:
  "isArrayStringNonBlank arr \<longleftrightarrow> (\<forall>word\<in>set arr. \<exists>c\<in>set word. \<not> isWhiteSpace c)"
  by (simp add: isArrayStringNonBlank_def list_all_iff isStringNonBlank_iff)

lemma assign_all_keys: "foldl (assign userConfig) cfg keys = preview cfg userConfig"
  by (cases cfg) (simp add: keys_def preview_def nullish_def split: option.splits)

subsection \<open>Compositor: auxiliary facts\<close>

lemma CR_neq_LF: "CR \<noteq> LF"
  by (simp add: CR_def LF_def)

lemma strip_CR_LF: "strip_line_breaks (CR # LF # cs) = strip_line_breaks cs"
  by simp

lemma strip_CR_other:
  "c' \<noteq> LF \<Longrightarrow> strip_line_breaks (CR # c' # cs) = strip_line_breaks (c' # cs)"
  by simp

text \<open>Stripping removes exactly the carriage returns and the line feeds.\<close>

lemma strip_line_breaks_filter:
  "strip_line_breaks str = filter (\<lambda>c. c \<noteq> CR \<and> c \<noteq> LF) str"
proof (induction str rule: strip_line_breaks.induct)
  case 1
  then show ?case by simp
next
  case (2 c cs)
  let ?f = "filter (\<lambda>c. c \<noteq> CR \<and> c \<noteq> LF)"
  show ?case
  proof (cases "c = CR")
    case False
    then have "strip_line_breaks cs = ?f cs"
      using "2.IH"(3,4) by blast
    then show ?thesis using False
      by (simp del: strip_line_breaks.simps add: strip_line_breaks.simps(2) [of c cs])
  next
    case True
    show ?thesis
    proof (cases cs)
      case Nil
      then show ?thesis using True by simp
    next
      case (Cons c' cs')
      show ?thesis
      proof (cases "c' = LF")
        case isLF: True
        have "strip_line_breaks cs' = ?f cs'"
          using "2.IH"(1) [OF True Cons isLF] .
        then show ?thesis using True Cons isLF
          by (simp del: strip_line_breaks.simps add: strip_CR_LF)
      next
        case notLF: False
        have "strip_line_breaks cs = ?f cs"
          using "2.IH"(2) [OF True Cons notLF] .
        then show ?thesis using True Cons notLF
          by (simp del: strip_line_breaks.simps add: strip_CR_other)
      qed
    qed
  qed
qed

lemma length4_cases:
  assumes "length xs = 4"
  shows "\<exists>r g b a. xs = [r, g, b, a]"
  using assms by (auto simp: length_Suc_conv numeral_eq_Suc)

lemma take4_drop:
  assumes "k * 4 + 4 \<le> length xs"
  shows "\<exists>r g b a. take 4 (drop (k * 4) xs) = [r, g, b, a]"
  by (rule length4_cases) (use assms in simp)

text \<open>Inside the raster, an iteration classifies the cell and cannot fail.\<close>

lemma cell_in_range:
  assumes "idx s * 4 + 4 \<le> length (data d)"
  shows "cell rnd d e wrds ltrs s =
     Inr (if is_filled d (idx s) then filled_cell rnd e wrds ltrs s
          else s\<lparr>chars := chars s @ '' '', start_of_filled_in_sequence := None, idx := idx s + 1\<rparr>)"
proof -
  from take4_drop [OF assms] obtain r g b a where
    "take 4 (drop (idx s * 4) (data d)) = [r, g, b, a]" by blast
  then show ?thesis by (simp add: cell_def is_filled_def)
qed

text \<open>
  Invariant rules for the two loops: \<open>J y x\<close> describes the loop state before the
  iteration at row \<open>y\<close> and column \<open>x\<close>.
\<close>

lemma row_loop_rule:
  assumes "\<And>x s. x < n \<Longrightarrow> J x s \<Longrightarrow> \<exists>s'. cell rnd d e wrds ltrs s = Inr s' \<and> J (Suc x) s'"
    and "J 0 s"
  shows "\<exists>s'. row_loop rnd d e wrds ltrs n s = Inr s' \<and> J n s'"
  using assms
proof (induction n arbitrary: s J)
  case 0
  then show ?case by simp
next
  case (Suc n)
  from Suc.prems(1) [of 0 s] Suc.prems(2)
  obtain s1 where s1: "cell rnd d e wrds ltrs s = Inr s1" "J (Suc 0) s1" by auto
  have "\<exists>s'. row_loop rnd d e wrds ltrs n s1 = Inr s' \<and> J (Suc n) s'"
    using Suc.IH [of "\<lambda>x. J (Suc x)" s1] Suc.prems(1) s1(2) by simp
  with s1 show ?case by simp
qed

lemma rows_loop_rule:
  assumes step: "\<And>y x s. y < h \<Longrightarrow> x < width d \<Longrightarrow> J y x s \<Longrightarrow>
             \<exists>s'. cell rnd d e wrds ltrs s = Inr s' \<and> J y (Suc x) s'"
    and row_end: "\<And>y s. y < h \<Longrightarrow> J y (width d) s \<Longrightarrow>
             J (Suc y) 0 (s\<lparr>chars := chars s @ [LF], start_of_filled_in_sequence := None\<rparr>)"
    and init: "J 0 0 s"
  shows "\<exists>s'. rows_loop rnd d e wrds ltrs h s = Inr s' \<and> J h 0 s'"
  using assms
proof (induction h arbitrary: s J)
  case 0
  then show ?case by simp
next
  case (Suc h)
  have "\<exists>s1. row_loop rnd d e wrds ltrs (width d) s = Inr s1 \<and> J 0 (width d) s1"
    by (rule row_loop_rule [where J = "J 0"]) (use Suc.prems in auto)
  then obtain s1 where s1: "row_loop rnd d e wrds ltrs (width d) s = Inr s1" "J 0 (width d) s1"
    by auto
  let ?s2 = "s1\<lparr>chars := chars s1 @ [LF], start_of_filled_in_sequence := None\<rparr>"
  have "J (Suc 0) 0 ?s2" using Suc.prems(2) [of 0 s1] s1(2) by simp
  then have "\<exists>s'. rows_loop rnd d e wrds ltrs h ?s2 = Inr s' \<and> J (Suc h) 0 s'"
    using Suc.IH [of "\<lambda>y. J (Suc y)" ?s2] Suc.prems(1,2) by simp
  with s1 show ?case by simp
qed

lemma cell_index_bound:
  assumes "y < h" "x < (w::nat)"
  shows "y * w + x < w * h"
proof -
  have "y * w + x < y * w + w" using assms by simp
  also have "\<dots> = Suc y * w" by simp
  also have "\<dots> \<le> h * w" using assms(1) by (intro mult_le_mono1) simp
  finally show ?thesis by (simp add: mult.commute)
qed

text \<open>The fields of the loop state after the body at a filled cell.\<close>

lemma filled_cell_fields:
  "idx (filled_cell rnd e wrds ltrs s) = Suc (idx s)"
  "start_of_filled_in_sequence (filled_cell rnd e wrds ltrs s) = Some (run_start s)"
  "chars (filled_cell rnd e wrds ltrs s) =
     fst (inject_word rnd e wrds (idx s) (run_start s)
            (chars s @ to_string (fst (emit_char rnd e ltrs (idx s) (random_calls s))))
            (snd (emit_char rnd e ltrs (idx s) (random_calls s))))"
  "random_calls (filled_cell rnd e wrds ltrs s) =
     snd (inject_word rnd e wrds (idx s) (run_start s)
            (chars s @ to_string (fst (emit_char rnd e ltrs (idx s) (random_calls s))))
            (snd (emit_char rnd e ltrs (idx s) (random_calls s))))"
  by (simp_all add: filled_cell_def run_start_def Let_def split: prod.splits)

lemma inject_word_none:
  assumes "wrds = [] \<or> \<not> rnd n < 5 / 100"
  shows "fst (inject_word rnd e wrds k start cs n) = cs"
  using assms by (auto simp: inject_word_def shouldReplaceWord_def)

lemma emit_char_reuse:
  assumes "\<not> falsy (Some t)" "k < length t" "\<not> rnd n < 1 / 10"
  shows "emit_char rnd (Some t) ltrs k n = (Some [t ! k], Suc n)"
  using assms by (simp add: emit_char_def shouldReplaceExistingText_def char_at_def)

text \<open>
  Beyond the end of a non-empty previous text, a draw that is not below 10% makes the
  value appended \<^verbatim>\<open>undefined\<close>.
\<close>

lemma emit_char_out_of_range:
  assumes "t \<noteq> []" "length t \<le> k" "\<not> rnd n < 1 / 10"
  shows "emit_char rnd (Some t) ltrs k n = (None, Suc n)"
  using assms by (simp add: emit_char_def shouldReplaceExistingText_def char_at_def falsy_def)

lemma nat_less_length:
  assumes "0 \<le> (k::int)" "k < int m"
  shows "nat k < m"
  using assms by linarith

text \<open>A random choice that returns a value returns an element of the list.\<close>

lemma randomChoice_Some:
  assumes "randomChoice rnd xs n = (Some x, m)"
  shows "x \<in> set xs \<and> m = Suc n"
proof -
  let ?k = "\<lfloor>rnd n * real (length xs)\<rfloor>"
  from assms have k: "0 \<le> ?k \<and> ?k < int (length xs)" and x: "x = xs ! nat ?k" and m: "m = Suc n"
    unfolding randomChoice_def Let_def by (simp_all split: if_splits)
  from k have "nat ?k < length xs" by (intro nat_less_length) simp_all
  with x m show ?thesis by simp
qed

text \<open>With \<^verbatim>\<open>Math.random\<close> in \<open>[0, 1)\<close>, a choice from a non-empty list is defined.\<close>

lemma randomChoice_in_range:
  assumes "xs \<noteq> []" "0 \<le> rnd n" "rnd n < 1"
  shows "\<exists>x\<in>set xs. randomChoice rnd xs n = (Some x, Suc n)"
proof -
  let ?k = "\<lfloor>rnd n * real (length xs)\<rfloor>"
  have len: "0 < real (length xs)" using assms(1) by simp
  have "0 \<le> rnd n * real (length xs)" using assms(2) by simp
  then have k0: "0 \<le> ?k" by simp
  have "rnd n * real (length xs) < real (length xs)"
    using assms(3) len by simp
  then have k1: "?k < int (length xs)" by (simp add: floor_less_iff)
  have "nat ?k < length xs" using k0 k1 by (rule nat_less_length)
  then have "xs ! nat ?k \<in> set xs" by simp
  moreover have "randomChoice rnd xs n = (Some (xs ! nat ?k), Suc n)"
    unfolding randomChoice_def Let_def using k0 k1 by (simp only: if_True simp_thms Suc_eq_plus1)
  ultimately show ?thesis by blast
qed

text \<open>
  The two outcomes of lines 341 to 346: the emitted text is left as it is, or a
  configured, non-empty word no longer than the run replaces its tail, and then the
  word draw was below 5% and the second \<open>shouldReplaceExistingText\<close> passed.
\<close>

lemma inject_word_cases:
  "fst (inject_word rnd e wrds k start cs n) = cs \<or>
   (\<exists>word\<in>set wrds. word \<noteq> [] \<and> int (length word) \<le> int k + 1 - int start \<and>
      rnd n < 5 / 100 \<and> fst (shouldReplaceExistingText rnd e (Suc n)) \<and>
      fst (inject_word rnd e wrds k start cs n) = take (length cs - length word) cs @ word)"
proof (cases "fst (inject_word rnd e wrds k start cs n) = cs")
  case True
  then show ?thesis by simp
next
  case False
  then show ?thesis
    by (auto simp: inject_word_def shouldReplaceWord_def Let_def
          split: if_splits prod.splits option.splits dest: randomChoice_Some)
qed

text \<open>The invariant holds initially and is kept by each kind of iteration.\<close>

lemma frame_inv_init: "frame_inv d A 0 0 loop\<^sub>0"
  by (simp add: frame_inv_def loop\<^sub>0_def)

lemma frame_inv_row_end:
  assumes "frame_inv d A y (width d) s"
  shows "frame_inv d A (Suc y) 0 (s\<lparr>chars := chars s @ [LF], start_of_filled_in_sequence := None\<rparr>)"
proof -
  from assms obtain rows cur where
    c: "chars s = concat (map (\<lambda>r. r @ [LF]) rows) @ cur" and r: "length rows = y"
    and rows: "\<forall>y'<y. length (rows ! y') = width d \<and>
           (\<forall>x'<width d. cell_ok d A (y' * width d + x') (rows ! y' ! x'))"
    and cur: "length cur = width d" "\<forall>x'<width d. cell_ok d A (y * width d + x') (cur ! x')"
    and i: "idx s = y * width d + width d"
    unfolding frame_inv_def by blast
  have "chars s @ [LF] = concat (map (\<lambda>r. r @ [LF]) (rows @ [cur])) @ []"
    using c by simp
  moreover have "length (rows @ [cur]) = Suc y" using r by simp
  moreover have "\<forall>y'<Suc y. length ((rows @ [cur]) ! y') = width d \<and>
           (\<forall>x'<width d. cell_ok d A (y' * width d + x') ((rows @ [cur]) ! y' ! x'))"
    using rows cur r by (auto simp: nth_append less_Suc_eq)
  ultimately show ?thesis
    unfolding frame_inv_def using i
    by (intro conjI exI [of _ "rows @ [cur]"] exI [of _ "[]"]) simp_all
qed

lemma frame_inv_empty:
  assumes "frame_inv d A y x s" "\<not> is_filled d (idx s)"
  shows "frame_inv d A y (Suc x)
           (s\<lparr>chars := chars s @ '' '', start_of_filled_in_sequence := None, idx := idx s + 1\<rparr>)"
proof -
  from assms(1) obtain rows cur where
    c: "chars s = concat (map (\<lambda>r. r @ [LF]) rows) @ cur" and r: "length rows = y"
    and rows: "\<forall>y'<y. length (rows ! y') = width d \<and>
           (\<forall>x'<width d. cell_ok d A (y' * width d + x') (rows ! y' ! x'))"
    and cur: "length cur = x" "\<forall>x'<x. cell_ok d A (y * width d + x') (cur ! x')"
    and i: "idx s = y * width d + x"
    unfolding frame_inv_def by blast
  have "\<forall>x'<Suc x. cell_ok d A (y * width d + x') ((cur @ '' '') ! x')"
    using cur assms(2) i by (auto simp: nth_append less_Suc_eq cell_ok_def)
  then show ?thesis
    unfolding frame_inv_def using c r rows cur(1) i
    by (intro conjI exI [of _ rows] exI [of _ "cur @ '' ''"]) simp_all
qed

lemma frame_inv_filled:
  assumes inv: "frame_inv d A y x s" and filled: "is_filled d (idx s)" and c: "c \<in> A"
    and cs': "cs' = chars s @ [c] \<or>
       (\<exists>word. set word \<subseteq> A \<and> word \<noteq> [] \<and>
          int (length word) \<le> int (idx s) + 1 - int (run_start s) \<and>
          cs' = take (length (chars s @ [c]) - length word) (chars s @ [c]) @ word)"
  shows "frame_inv d A y (Suc x)
           (s\<lparr>chars := cs', start_of_filled_in_sequence := Some (run_start s),
                idx := idx s + 1, random_calls := m\<rparr>)"
proof -
  from inv obtain rows cur where
    ch: "chars s = concat (map (\<lambda>r. r @ [LF]) rows) @ cur" and r: "length rows = y"
    and rows: "\<forall>y'<y. length (rows ! y') = width d \<and>
           (\<forall>x'<width d. cell_ok d A (y' * width d + x') (rows ! y' ! x'))"
    and cur: "length cur = x" "\<forall>x'<x. cell_ok d A (y * width d + x') (cur ! x')"
    and i: "idx s = y * width d + x"
    and st: "\<forall>b. start_of_filled_in_sequence s = Some b \<longrightarrow>
        y * width d \<le> b \<and> b \<le> idx s \<and> (\<forall>j. b \<le> j \<and> j < idx s \<longrightarrow> is_filled d j)"
    unfolding frame_inv_def by blast
  let ?P = "concat (map (\<lambda>r. r @ [LF]) rows)"
  have rs: "y * width d \<le> run_start s \<and> run_start s \<le> idx s \<and>
      (\<forall>j. run_start s \<le> j \<and> j < Suc (idx s) \<longrightarrow> is_filled d j)"
  proof (cases "start_of_filled_in_sequence s")
    case None
    then show ?thesis using i filled by (auto simp: run_start_def less_Suc_eq)
  next
    case (Some b)
    then show ?thesis using st filled by (auto simp: run_start_def less_Suc_eq)
  qed
  have "\<exists>cur'. cs' = ?P @ cur' \<and> length cur' = Suc x \<and>
          (\<forall>x'<Suc x. cell_ok d A (y * width d + x') (cur' ! x'))"
    using cs'
  proof
    assume "cs' = chars s @ [c]"
    moreover have "\<forall>x'<Suc x. cell_ok d A (y * width d + x') ((cur @ [c]) ! x')"
      using cur filled c i by (auto simp: nth_append less_Suc_eq cell_ok_def)
    ultimately show ?thesis using ch cur(1) by (intro exI [of _ "cur @ [c]"]) simp
  next
    assume "\<exists>word. set word \<subseteq> A \<and> word \<noteq> [] \<and>
          int (length word) \<le> int (idx s) + 1 - int (run_start s) \<and>
          cs' = take (length (chars s @ [c]) - length word) (chars s @ [c]) @ word"
    then obtain word where w: "set word \<subseteq> A" "word \<noteq> []"
      and len: "int (length word) \<le> int (idx s) + 1 - int (run_start s)"
      and eq: "cs' = take (length (chars s @ [c]) - length word) (chars s @ [c]) @ word"
      by blast
    define l where "l = length word"
    have l3: "run_start s + l \<le> Suc (idx s)"
      using len unfolding l_def by linarith
    have l1: "0 < l" using w(2) by (simp add: l_def)
    have l2: "l \<le> Suc x" using l3 rs i by linarith
    note l = l1 l2 l3
    let ?cur' = "take (Suc x - l) (cur @ [c]) @ word"
    have "cs' = ?P @ ?cur'"
      using eq ch cur(1) l by (simp add: l_def)
    moreover have "length ?cur' = Suc x" using cur(1) l by (simp add: l_def)
    moreover have "\<forall>x'<Suc x. cell_ok d A (y * width d + x') (?cur' ! x')"
    proof (intro allI impI)
      fix x' assume x': "x' < Suc x"
      show "cell_ok d A (y * width d + x') (?cur' ! x')"
      proof (cases "x' < Suc x - l")
        case True
        then have "x' < x" using l by linarith
        then show ?thesis using True cur by (simp add: nth_append)
      next
        case False
        then have "?cur' ! x' = word ! (x' - (Suc x - l))"
          using cur(1) l by (simp add: nth_append)
        moreover have "x' - (Suc x - l) < length word" using False x' l by (simp add: l_def)
        ultimately have "?cur' ! x' \<in> A" using w(1) by (metis nth_mem subsetD)
        moreover have "run_start s \<le> y * width d + x'" "y * width d + x' < Suc (idx s)"
          using False x' l i by linarith+
        then have "is_filled d (y * width d + x')" using rs by blast
        ultimately show ?thesis by (simp add: cell_ok_def)
      qed
    qed
    ultimately show ?thesis by blast
  qed
  then obtain cur' where cur': "cs' = ?P @ cur'" "length cur' = Suc x"
    "\<forall>x'<Suc x. cell_ok d A (y * width d + x') (cur' ! x')" by blast
  show ?thesis
    unfolding frame_inv_def using cur' r rows i rs
    by (intro conjI exI [of _ rows] exI [of _ cur']) simp_all
qed

lemma filled_cell_eq:
  "filled_cell rnd e wrds ltrs s =
     s\<lparr>chars := fst (inject_word rnd e wrds (idx s) (run_start s)
                     (chars s @ to_string (fst (emit_char rnd e ltrs (idx s) (random_calls s))))
                     (snd (emit_char rnd e ltrs (idx s) (random_calls s)))),
        start_of_filled_in_sequence := Some (run_start s), idx := idx s + 1,
        random_calls := snd (inject_word rnd e wrds (idx s) (run_start s)
                     (chars s @ to_string (fst (emit_char rnd e ltrs (idx s) (random_calls s))))
                     (snd (emit_char rnd e ltrs (idx s) (random_calls s))))\<rparr>"
  by (simp add: filled_cell_def run_start_def Let_def split: prod.splits)

lemma emit_char_first:
  assumes "falsy e" "ltrs \<noteq> []" "0 \<le> rnd n" "rnd n < 1"
  shows "\<exists>c\<in>set ltrs. emit_char rnd e ltrs k n = (Some [c], Suc n)"
proof -
  have "split_chars ltrs \<noteq> []" using assms(2) by (simp add: split_chars_def)
  from randomChoice_in_range [of "split_chars ltrs" rnd n, OF this assms(3,4)]
  obtain x where "x \<in> set (split_chars ltrs)" "randomChoice rnd (split_chars ltrs) n = (Some x, Suc n)"
    by blast
  then show ?thesis using assms(1)
    by (auto simp: emit_char_def shouldReplaceExistingText_def split_chars_def)
qed

lemma first_frame:
  assumes raster: "width d * height d * 4 \<le> length (data d)"
    and e: "falsy e" and ltrs: "ltrs \<noteq> []" and rnd: "\<forall>n. 0 \<le> rnd n \<and> rnd n < 1"
    and A: "set ltrs \<subseteq> A" "\<forall>word\<in>set wrds. set word \<subseteq> A"
  shows "\<exists>s'. rows_loop rnd d e wrds ltrs (height d) loop\<^sub>0 = Inr s' \<and>
           frame_inv d A (height d) 0 s'"
proof (rule rows_loop_rule)
  show "frame_inv d A 0 0 loop\<^sub>0" by (rule frame_inv_init)
next
  fix y s assume "frame_inv d A y (width d) s"
  then show "frame_inv d A (Suc y) 0
      (s\<lparr>chars := chars s @ [LF], start_of_filled_in_sequence := None\<rparr>)"
    by (rule frame_inv_row_end)
next
  fix y x s assume yx: "y < height d" "x < width d" and inv: "frame_inv d A y x s"
  have "idx s < width d * height d"
    using cell_index_bound [OF yx] inv by (simp add: frame_inv_def)
  then have in_range: "idx s * 4 + 4 \<le> length (data d)" using raster by simp
  show "\<exists>s'. cell rnd d e wrds ltrs s = Inr s' \<and> frame_inv d A y (Suc x) s'"
  proof (cases "is_filled d (idx s)")
    case False
    then show ?thesis
      using frame_inv_empty [OF inv False] by (simp add: cell_in_range [OF in_range])
  next
    case True
    from emit_char_first [OF e ltrs, of rnd "random_calls s" "idx s"] rnd
    obtain c where c: "c \<in> set ltrs"
      "emit_char rnd e ltrs (idx s) (random_calls s) = (Some [c], Suc (random_calls s))"
      by blast
    let ?cs = "fst (inject_word rnd e wrds (idx s) (run_start s) (chars s @ [c])
                 (Suc (random_calls s)))"
    have "?cs = chars s @ [c] \<or>
       (\<exists>word. set word \<subseteq> A \<and> word \<noteq> [] \<and>
          int (length word) \<le> int (idx s) + 1 - int (run_start s) \<and>
          ?cs = take (length (chars s @ [c]) - length word) (chars s @ [c]) @ word)"
      using inject_word_cases [of rnd e wrds "idx s" "run_start s" "chars s @ [c]"
          "Suc (random_calls s)"] A(2) by blast
    from frame_inv_filled [OF inv True _ this] c(1) A(1)
    have "frame_inv d A y (Suc x) (filled_cell rnd e wrds ltrs s)"
      by (simp add: filled_cell_eq c(2) to_string_def subsetD)
    then show ?thesis using True by (simp add: cell_in_range [OF in_range])
  qed
qed

text \<open>The states the loop functions pass through are those of the step relation.\<close>

lemma row_loop_visits:
  assumes "visits rnd d e wrds ltrs y x s" "y < height d" "x + n = width d"
    and "row_loop rnd d e wrds ltrs n s = Inr s'"
  shows "visits rnd d e wrds ltrs y (width d) s'"
  using assms
proof (induction n arbitrary: x s)
  case 0
  then show ?case by simp
next
  case (Suc n)
  from Suc.prems(4) obtain s1 where s1: "cell rnd d e wrds ltrs s = Inr s1"
    "row_loop rnd d e wrds ltrs n s1 = Inr s'"
    by (auto split: sum.splits)
  have "visits rnd d e wrds ltrs y (Suc x) s1"
    using Suc.prems(1,2,3) s1(1) by (intro visits.cell [of _ _ _ _ _ _ _ s]) simp_all
  then show ?case using Suc.IH [of "Suc x" s1] Suc.prems(2,3) s1(2) by simp
qed

lemma rows_loop_visits:
  assumes "visits rnd d e wrds ltrs y 0 s" "y + n = height d"
    and "rows_loop rnd d e wrds ltrs n s = Inr s'"
  shows "visits rnd d e wrds ltrs (height d) 0 s'"
  using assms
proof (induction n arbitrary: y s)
  case 0
  then show ?case by simp
next
  case (Suc n)
  from Suc.prems(3) obtain s1 where s1: "row_loop rnd d e wrds ltrs (width d) s = Inr s1"
    "rows_loop rnd d e wrds ltrs n
       (s1\<lparr>chars := chars s1 @ [LF], start_of_filled_in_sequence := None\<rparr>) = Inr s'"
    by (auto split: sum.splits)
  have y: "y < height d" using Suc.prems(2) by simp
  have "visits rnd d e wrds ltrs y (width d) s1"
    using row_loop_visits [OF Suc.prems(1) y _ s1(1)] by simp
  then have "visits rnd d e wrds ltrs (Suc y) 0
       (s1\<lparr>chars := chars s1 @ [LF], start_of_filled_in_sequence := None\<rparr>)"
    using y by (intro visits.row_end) simp_all
  then show ?case using Suc.IH [OF _ _ s1(2)] Suc.prems(2) by simp
qed

lemma emit_char_shape:
  "fst (emit_char rnd e ltrs k n) = None \<or> (\<exists>c. fst (emit_char rnd e ltrs k n) = Some [c])"
proof (cases "fst (shouldReplaceExistingText rnd e n)")
  case True
  obtain v m where vm: "randomChoice rnd (split_chars ltrs) (snd (shouldReplaceExistingText rnd e n)) = (v, m)"
    by (cases "randomChoice rnd (split_chars ltrs) (snd (shouldReplaceExistingText rnd e n))")
  have eq: "fst (emit_char rnd e ltrs k n) = v"
    using True vm by (simp add: emit_char_def case_prod_beta)
  show ?thesis
  proof (cases v)
    case None
    then show ?thesis using eq by simp
  next
    case (Some x)
    then have "x \<in> set (split_chars ltrs)"
      using randomChoice_Some [of rnd "split_chars ltrs" _ x m] vm by simp
    then show ?thesis using eq Some by (auto simp: split_chars_def)
  qed
next
  case False
  then show ?thesis
    by (auto simp: emit_char_def case_prod_beta char_at_def split: option.splits)
qed

lemma to_string_emit_nonempty: "0 < length (to_string (fst (emit_char rnd e ltrs k n)))"
  using emit_char_shape [of rnd e ltrs k n] by (auto simp: to_string_def)

lemma cell_Inr:
  assumes "cell rnd d e wrds ltrs s = Inr s'"
  shows "s' = (if is_filled d (idx s) then filled_cell rnd e wrds ltrs s
          else s\<lparr>chars := chars s @ '' '', start_of_filled_in_sequence := None, idx := idx s + 1\<rparr>)"
proof -
  from assms obtain r g b a rest where
    px: "take 4 (drop (idx s * 4) (data d)) = r # g # b # a # rest"
    unfolding cell_def by (auto split: list.splits)
  show ?thesis using assms unfolding cell_def is_filled_def px by auto
qed

lemma inject_word_length:
  assumes "k < length cs" "start \<le> k"
  shows "length (fst (inject_word rnd e wrds k start cs n)) = length cs"
proof -
  from inject_word_cases [of rnd e wrds k start cs n]
  show ?thesis
  proof
    assume "fst (inject_word rnd e wrds k start cs n) = cs"
    then show ?thesis by simp
  next
    assume "\<exists>word\<in>set wrds. word \<noteq> [] \<and> int (length word) \<le> int k + 1 - int start \<and>
      rnd n < 5 / 100 \<and> fst (shouldReplaceExistingText rnd e (Suc n)) \<and>
      fst (inject_word rnd e wrds k start cs n) = take (length cs - length word) cs @ word"
    then obtain word where "int (length word) \<le> int k + 1 - int start"
      and eq: "fst (inject_word rnd e wrds k start cs n) = take (length cs - length word) cs @ word"
      by blast
    then have "length word \<le> length cs" using assms by linarith
    then show ?thesis using eq by simp
  qed
qed

lemma visits_run:
  assumes "visits rnd d e wrds ltrs y x s"
  shows "idx s = y * width d + x \<and> x \<le> width d \<and> idx s \<le> length (chars s) \<and>
     (\<forall>b. start_of_filled_in_sequence s = Some b \<longrightarrow>
        y * width d \<le> b \<and> b \<le> idx s \<and> (\<forall>j. b \<le> j \<and> j < idx s \<longrightarrow> is_filled d j))"
  using assms
proof (induction rule: visits.induct)
  case start
  then show ?case by (simp add: loop\<^sub>0_def)
next
  case (cell y x s s')
  note s' = cell_Inr [OF cell.hyps(4)]
  show ?case
  proof (cases "is_filled d (idx s)")
    case False
    then show ?thesis using s' cell.IH cell.hyps(3) by simp
  next
    case True
    have rs: "y * width d \<le> run_start s \<and> run_start s \<le> idx s \<and>
        (\<forall>j. run_start s \<le> j \<and> j < Suc (idx s) \<longrightarrow> is_filled d j)"
      using cell.IH True by (cases "start_of_filled_in_sequence s") (auto simp: run_start_def less_Suc_eq)
    let ?cs = "chars s @ to_string (fst (emit_char rnd e ltrs (idx s) (random_calls s)))"
    have "idx s < length (chars s) +
        length (to_string (fst (emit_char rnd e ltrs (idx s) (random_calls s))))"
      using cell.IH to_string_emit_nonempty [of rnd e ltrs "idx s" "random_calls s"] by linarith
    then have "idx s < length ?cs" by simp
    then have "length (chars s') = length ?cs"
      using s' True rs by (simp add: filled_cell_fields inject_word_length)
    then show ?thesis
      using s' True rs cell.IH cell.hyps(3) \<open>idx s < length ?cs\<close>
      by (simp add: filled_cell_fields)
  qed
next
  case (row_end y x s)
  then show ?case by simp
qed

text \<open>
  When no draw is below 10%, every filled cell takes the character of the previous text
  at its own index and no word is injected.
\<close>

lemma reuse_frame:
  assumes raster: "width d * height d * 4 \<le> length (data d)"
    and cover: "width d * height d \<le> length t"
    and never: "\<forall>n. \<not> rnd n < 1 / 10"
  shows "\<exists>s'. rows_loop rnd d (Some t) wrds ltrs (height d) loop\<^sub>0 = Inr s' \<and>
           chars s' =
             concat (map (\<lambda>y. map (\<lambda>k. if is_filled d k then t ! k else CHR '' '')
                            [y * width d..<y * width d + width d] @ [LF]) [0..<height d])"
proof -
  define frame where "frame y x =
     concat (map (\<lambda>y'. map (\<lambda>k. if is_filled d k then t ! k else CHR '' '')
                          [y' * width d..<y' * width d + width d] @ [LF]) [0..<y]) @
     map (\<lambda>k. if is_filled d k then t ! k else CHR '' '') [y * width d..<y * width d + x]"
    for y x
  define J where "J y x s \<longleftrightarrow> idx s = y * width d + x \<and> chars s = frame y x"
    for y x and s :: loop
  have "\<exists>s'. rows_loop rnd d (Some t) wrds ltrs (height d) loop\<^sub>0 = Inr s' \<and> J (height d) 0 s'"
  proof (rule rows_loop_rule)
    show "J 0 0 loop\<^sub>0" by (simp add: J_def loop\<^sub>0_def frame_def)
  next
    fix y s assume "y < height d" "J y (width d) s"
    then show "J (Suc y) 0 (s\<lparr>chars := chars s @ [LF], start_of_filled_in_sequence := None\<rparr>)"
      by (simp add: J_def frame_def)
  next
    fix y x s assume yx: "y < height d" "x < width d" and J: "J y x s"
    have lt: "idx s < width d * height d"
      using cell_index_bound [OF yx] J by (simp add: J_def)
    then have in_range: "idx s * 4 + 4 \<le> length (data d)" using raster by simp
    have in_text: "idx s < length t" using lt cover by simp
    then have nf: "\<not> falsy (Some t)" by (auto simp: falsy_def)
    have low: "\<not> rnd n < 5 / 100" for n
      using never [rule_format, of n] by simp
    have filled: "chars (filled_cell rnd (Some t) wrds ltrs s) = chars s @ [t ! idx s]"
      using never
      by (simp add: filled_cell_fields emit_char_reuse [OF nf in_text]
            inject_word_none [OF disjI2, OF low] to_string_def)
    show "\<exists>s'. cell rnd d (Some t) wrds ltrs s = Inr s' \<and> J y (Suc x) s'"
      using J filled
      by (simp add: cell_in_range [OF in_range] J_def frame_def filled_cell_fields)
  qed
  then show ?thesis by (auto simp: J_def frame_def)
qed

text \<open>
  Without previous text (absent, or empty once stripped), a non-empty palette and draws
  in \<open>[0, 1)\<close>: the compositor returns \<open>height\<close> rows of \<open>width\<close> cells, each row followed
  by a line feed; a filled cell holds a palette character or a character of a configured
  word, an empty cell a space.
\<close>

lemma first_frame_rows:
  assumes "width d * height d * 4 \<le> length (data d)"
    and "falsy (map_option strip_line_breaks t)"
    and "ltrs \<noteq> []" and "\<forall>n. 0 \<le> rnd n \<and> rnd n < 1"
  shows "\<exists>rows. getTextContentWithImageAtSize rnd d t wrds ltrs =
             Inr (concat (map (\<lambda>r. r @ [LF]) rows)) \<and>
           length rows = height d \<and>
           (\<forall>y<height d. length (rows ! y) = width d \<and>
              (\<forall>x<width d.
                 if is_filled d (y * width d + x)
                 then rows ! y ! x \<in> set ltrs \<union> (\<Union>word\<in>set wrds. set word)
                 else rows ! y ! x = CHR '' ''))"
proof -
  let ?A = "set ltrs \<union> (\<Union>word\<in>set wrds. set word)"
  from first_frame [OF assms, of ?A wrds]
  obtain s' where s': "rows_loop rnd d (map_option strip_line_breaks t) wrds ltrs (height d) loop\<^sub>0 = Inr s'"
    "frame_inv d ?A (height d) 0 s'" by auto
  from s'(2) obtain rows where rows:
    "chars s' = concat (map (\<lambda>r. r @ [LF]) rows)" "length rows = height d"
    "\<forall>y'<height d. length (rows ! y') = width d \<and>
           (\<forall>x'<width d. cell_ok d ?A (y' * width d + x') (rows ! y' ! x'))"
    unfolding frame_inv_def by auto
  have "getTextContentWithImageAtSize rnd d t wrds ltrs = Inr (concat (map (\<lambda>r. r @ [LF]) rows))"
    using s'(1) rows(1) by (simp add: getTextContentWithImageAtSize_def)
  moreover note rows(2)
  moreover have "\<forall>y<height d. length (rows ! y) = width d \<and>
              (\<forall>x<width d.
                 if is_filled d (y * width d + x)
                 then rows ! y ! x \<in> ?A
                 else rows ! y ! x = CHR '' '')"
    using rows(3) unfolding cell_ok_def .
  ultimately show ?thesis by blast
qed

text \<open>
  The scenario of the specification: palette \<open>01\<close>, no words, a grid of three filled
  cells in one row and no previous text give three characters among \<open>0\<close> and \<open>1\<close> and
  a line feed.
\<close>

lemma three_filled_cells:
  assumes "length ds = 12"
    and "is_filled \<lparr>width = 3, height = 1, data = ds\<rparr> 0"
    and "is_filled \<lparr>width = 3, height = 1, data = ds\<rparr> 1"
    and "is_filled \<lparr>width = 3, height = 1, data = ds\<rparr> 2"
    and "\<forall>n. 0 \<le> rnd n \<and> rnd n < 1"
  shows "\<exists>a b c. getTextContentWithImageAtSize rnd \<lparr>width = 3, height = 1, data = ds\<rparr> None [] ''01'' =
             Inr [a, b, c, LF] \<and> {a, b, c} \<subseteq> {CHR ''0'', CHR ''1''}"
proof -
  let ?d = "\<lparr>width = 3, height = 1, data = ds\<rparr>"
  have h1: "width ?d * height ?d * 4 \<le> length (data ?d)" using assms(1) by simp
  have h2: "falsy (map_option strip_line_breaks None)" by (simp add: falsy_def)
  have h3: "''01'' \<noteq> []" by simp
  from first_frame_rows [OF h1 h2 h3 assms(5), of "[]"]
  obtain rows where out: "getTextContentWithImageAtSize rnd ?d None [] ''01'' =
             Inr (concat (map (\<lambda>r. r @ [LF]) rows))" and len: "length rows = height ?d"
    and row: "\<forall>y<height ?d. length (rows ! y) = width ?d \<and>
              (\<forall>x<width ?d.
                 if is_filled ?d (y * width ?d + x)
                 then rows ! y ! x \<in> set ''01'' \<union> (\<Union>word\<in>set []. set word)
                 else rows ! y ! x = CHR '' '')"
    by blast
  from len obtain r where r: "rows = [r]" by (cases rows) auto
  have l3: "length r = 3" using row r by simp
  have cell: "r ! x \<in> set ''01''" if "x < 3" "is_filled ?d x" for x
    using row r that by (auto split: if_splits)
  from l3 obtain a b c where abc: "r = [a, b, c]"
    by (auto simp: length_Suc_conv numeral_3_eq_3)
  have "a \<in> set ''01''" "b \<in> set ''01''" "c \<in> set ''01''"
    using cell [of 0] cell [of 1] cell [of 2] assms(2,3,4) abc by simp_all
  then show ?thesis using out r abc by auto
qed

text \<open>A successful iteration read its four bytes inside the raster.\<close>

lemma cell_Inr_range:
  assumes "cell rnd d e wrds ltrs s = Inr s'"
  shows "idx s * 4 + 4 \<le> length (data d) \<and> idx s' = Suc (idx s)"
proof -
  from assms obtain r g b a rest where
    px: "take 4 (drop (idx s * 4) (data d)) = r # g # b # a # rest"
    unfolding cell_def by (auto split: list.splits)
  then have "4 \<le> length (take 4 (drop (idx s * 4) (data d)))" by simp
  then have "idx s * 4 + 4 \<le> length (data d)" by simp
  moreover have "idx s' = Suc (idx s)"
    using cell_Inr [OF assms] by (simp add: filled_cell_fields)
  ultimately show ?thesis by simp
qed

lemma row_loop_Inr_range:
  assumes "row_loop rnd d e wrds ltrs n s = Inr s'"
  shows "idx s' = idx s + n \<and> (0 < n \<longrightarrow> (idx s + n) * 4 \<le> length (data d))"
  using assms
proof (induction n arbitrary: s)
  case 0
  then show ?case by simp
next
  case (Suc n)
  from Suc.prems obtain s1 where s1: "cell rnd d e wrds ltrs s = Inr s1"
    "row_loop rnd d e wrds ltrs n s1 = Inr s'"
    by (auto split: sum.splits)
  from cell_Inr_range [OF s1(1)] Suc.IH [OF s1(2)]
  show ?case by (cases n) auto
qed

lemma rows_loop_Inr_range:
  assumes "rows_loop rnd d e wrds ltrs n s = Inr s'"
  shows "idx s' = idx s + n * width d \<and>
         (0 < n * width d \<longrightarrow> (idx s + n * width d) * 4 \<le> length (data d))"
  using assms
proof (induction n arbitrary: s)
  case 0
  then show ?case by simp
next
  case (Suc n)
  from Suc.prems obtain s1 where s1: "row_loop rnd d e wrds ltrs (width d) s = Inr s1"
    "rows_loop rnd d e wrds ltrs n
       (s1\<lparr>chars := chars s1 @ [LF], start_of_filled_in_sequence := None\<rparr>) = Inr s'"
    by (auto split: sum.splits)
  from row_loop_Inr_range [OF s1(1)] Suc.IH [OF s1(2)]
  show ?case by (cases "n * width d = 0") (auto simp: add.assoc)
qed

lemma rows_loop_in_range:
  assumes "width d * height d * 4 \<le> length (data d)"
  shows "\<exists>s'. rows_loop rnd d e wrds ltrs (height d) loop\<^sub>0 = Inr s'"
proof -
  have "\<exists>s'. rows_loop rnd d e wrds ltrs (height d) loop\<^sub>0 = Inr s' \<and>
          idx s' = height d * width d + 0"
  proof (rule rows_loop_rule [where J = "\<lambda>y x (s::loop). idx s = y * width d + x"])
    fix y x and s :: loop assume yx: "y < height d" "x < width d" and J: "idx s = y * width d + x"
    have "idx s < width d * height d" using cell_index_bound [OF yx] J by simp
    then have "idx s * 4 + 4 \<le> length (data d)" using assms by simp
    then show "\<exists>s'. cell rnd d e wrds ltrs s = Inr s' \<and> idx s' = y * width d + Suc x"
      using J by (simp add: cell_in_range filled_cell_fields)
  qed (simp_all add: loop\<^sub>0_def)
  then show ?thesis by blast
qed

text \<open>The compositor returns exactly when the raster has four bytes for every cell.\<close>

lemma compositor_returns_iff:
  "(\<exists>text. getTextContentWithImageAtSize rnd d e wrds ltrs = Inr text) \<longleftrightarrow>
     width d * height d * 4 \<le> length (data d)"
proof
  assume "\<exists>text. getTextContentWithImageAtSize rnd d e wrds ltrs = Inr text"
  then obtain s' where
    "rows_loop rnd d (map_option strip_line_breaks e) wrds ltrs (height d) loop\<^sub>0 = Inr s'"
    by (auto simp: getTextContentWithImageAtSize_def split: sum.splits)
  from rows_loop_Inr_range [OF this]
  show "width d * height d * 4 \<le> length (data d)"
    by (cases "height d * width d = 0") (auto simp: loop\<^sub>0_def mult.commute)
next
  assume "width d * height d * 4 \<le> length (data d)"
  from rows_loop_in_range [OF this, of rnd "map_option strip_line_breaks e" wrds ltrs]
  show "\<exists>text. getTextContentWithImageAtSize rnd d e wrds ltrs = Inr text"
    by (auto simp: getTextContentWithImageAtSize_def)
qed

subsection \<open>Lifecycle: auxiliary facts\<close>

text \<open>
  Rendering the text to an image reads the configuration and the element's attributes
  only, and writes the attribute \<^verbatim>\<open>data-lettercrap\<close> only.
\<close>

lemma text_to_image_Inr:
  assumes "text_to_image env element pg = Inr pg1"
  shows "config pg1 = config pg" "instances pg1 = instances pg"
    "attributes pg1 element ''data-lettercrap-text'' = attributes pg element ''data-lettercrap-text''"
    "attributes pg1 element ''data-lettercrap-font-family'' =
       attributes pg element ''data-lettercrap-font-family''"
    "attributes pg1 element ''data-lettercrap-font-weight'' =
       attributes pg element ''data-lettercrap-font-weight''"
  using assms
  by (auto simp: text_to_image_def setAttribute_def getAttribute_def Let_def
        split: if_splits option.splits)

lemma text_to_image_again:
  assumes "text_to_image env element pg = Inr pg1"
    and "config pg' = config pg1" "attributes pg' element = attributes pg1 element"
  shows "\<exists>pg1'. text_to_image env element pg' = Inr pg1' \<and> config pg1' = config pg1 \<and>
           attributes pg1' element = attributes pg1 element \<and> instances pg1' = instances pg'"
proof (cases "getAttribute pg element ''data-lettercrap-text''")
  case None
  then have "pg1 = pg" using assms(1) by (simp add: text_to_image_def)
  then have "text_to_image env element pg' = Inr pg'"
    using None assms(3) by (simp add: text_to_image_def getAttribute_def)
  then show ?thesis using assms(2,3) by simp
next
  case (Some a)
  let ?text = "nullish (getAttribute pg element ''data-lettercrap-text'') (content (config pg))"
  let ?family = "nullish (getAttribute pg element ''data-lettercrap-font-family'')
                        (font_family (config pg))"
  let ?weight = "nullish (getAttribute pg element ''data-lettercrap-font-weight'')
                        (font_weight (config pg))"
  from assms(1) Some obtain url where
    valid: "isStringNonBlank ?text" "isStringNonBlank ?family" "?weight \<in> set fontWeights"
    and url: "textImage env ?text ?family ?weight = Some url"
    and pg1: "pg1 = setAttribute element ''data-lettercrap'' url pg"
    by (auto simp: text_to_image_def Let_def split: if_splits option.splits)
  have same: "getAttribute pg' element ''data-lettercrap-text'' = getAttribute pg element ''data-lettercrap-text''"
    "getAttribute pg' element ''data-lettercrap-font-family'' =
       getAttribute pg element ''data-lettercrap-font-family''"
    "getAttribute pg' element ''data-lettercrap-font-weight'' =
       getAttribute pg element ''data-lettercrap-font-weight''"
    "config pg' = config pg"
    using assms(2,3) pg1 by (simp_all add: getAttribute_def setAttribute_def)
  have "text_to_image env element pg' = Inr (setAttribute element ''data-lettercrap'' url pg')"
    using Some valid url by (simp add: text_to_image_def same Let_def)
  moreover have "attributes (setAttribute element ''data-lettercrap'' url pg') element =
      attributes pg1 element"
    using assms(3) pg1 by (simp add: setAttribute_def)
  ultimately show ?thesis using same(4) pg1 by (simp add: setAttribute_def)
qed

text \<open>\<open>render\<close> with invalid and with valid settings.\<close>

lemma render_invalid:
  assumes "\<not> render_settings_ok env element pg"
  shows "fst (render env element img pg) = Inl InvalidSettings"
  using assms by (auto simp: render_def render_settings_ok_def Let_def getAttribute_def)

lemma render_valid:
  assumes "render_settings_ok env element pg"
  shows "render env element img pg =
     (let ltrs = trim (nullish (getAttribute pg element ''data-lettercrap-letters'')
                   (letters (config pg)));
          wrds = (case getAttribute pg element ''data-lettercrap-words'' of
                    Some a \<Rightarrow> split_on CHR '' '' a
                  | None \<Rightarrow> words (config pg));
          pg3 = pg\<lparr>style_height := (style_height pg)(element :=
                   lockedHeight env (getAttribute pg element ''data-lettercrap-aspect-ratio'') img
                     (clientWidth env element)),
                  observers := (observers pg)(fresh pg := {element}), fresh := fresh pg + 1,
                  frames := frames pg + 1\<rparr>
      in case getTextContentWithImageAtSize (random env (frames pg))
                (canvas env img (clientWidth env element) (clientHeight env element)) None wrds ltrs of
           Inl err \<Rightarrow> (Inl err, pg3)
         | Inr text \<Rightarrow>
             (Inr \<lparr>intervalId = fresh pg + 1, observer = fresh pg\<rparr>,
              pg3\<lparr>textContent := (textContent pg)(element := Some text),
                   intervals := insert (fresh pg + 1) (intervals pg), fresh := fresh pg + 2\<rparr>))"
  using assms
  by (simp add: render_def render_settings_ok_def Let_def getAttribute_def split: sum.splits)

lemma render_settings_ok_cong:
  assumes "config pg' = config pg" "attributes pg' element = attributes pg element"
  shows "render_settings_ok env element pg' = render_settings_ok env element pg"
  using assms by (simp add: render_settings_ok_def getAttribute_def cong: option.case_cong)

lemma render_resolves:
  assumes "render_settings_ok env element pg" "canvas_complete env element img"
  shows "\<exists>text pg2. render env element img pg =
            (Inr \<lparr>intervalId = fresh pg + 1, observer = fresh pg\<rparr>, pg2) \<and>
          config pg2 = config pg \<and> attributes pg2 = attributes pg \<and>
          instances pg2 = instances pg \<and>
          intervals pg2 = insert (fresh pg + 1) (intervals pg) \<and>
          observers pg2 = (observers pg)(fresh pg := {element}) \<and>
          textContent pg2 = (textContent pg)(element := Some text) \<and>
          fresh pg2 = fresh pg + 2"
proof -
  let ?ltrs = "trim (nullish (getAttribute pg element ''data-lettercrap-letters'')
                   (letters (config pg)))"
  let ?wrds = "case getAttribute pg element ''data-lettercrap-words'' of
                    Some a \<Rightarrow> split_on CHR '' '' a
                  | None \<Rightarrow> words (config pg)"
  let ?d = "canvas env img (clientWidth env element) (clientHeight env element)"
  have "width ?d * height ?d * 4 \<le> length (data ?d)"
    using assms(2) by (simp add: canvas_complete_def Let_def)
  then obtain tx where
    "getTextContentWithImageAtSize (random env (frames pg)) ?d None ?wrds ?ltrs = Inr tx"
    using compositor_returns_iff [of "random env (frames pg)" ?d None ?wrds ?ltrs] by blast
  then show ?thesis
    by (intro exI [of _ tx]) (simp add: render_valid [OF assms(1)] Let_def)
qed

lemma render_Inr:
  assumes "render env element img pg = (Inr m, pg2)"
  shows "render_settings_ok env element pg \<and> canvas_complete env element img"
proof -
  have ok: "render_settings_ok env element pg"
    using assms render_invalid [of env element pg img] by (cases "render_settings_ok env element pg") auto
  let ?ltrs = "trim (nullish (getAttribute pg element ''data-lettercrap-letters'')
                   (letters (config pg)))"
  let ?wrds = "case getAttribute pg element ''data-lettercrap-words'' of
                    Some a \<Rightarrow> split_on CHR '' '' a
                  | None \<Rightarrow> words (config pg)"
  let ?d = "canvas env img (clientWidth env element) (clientHeight env element)"
  have "\<exists>text. getTextContentWithImageAtSize (random env (frames pg)) ?d None ?wrds ?ltrs = Inr text"
    using assms unfolding render_valid [OF ok] Let_def by (auto split: sum.splits)
  then have "width ?d * height ?d * 4 \<le> length (data ?d)"
    using compositor_returns_iff [of "random env (frames pg)" ?d None ?wrds ?ltrs] by blast
  then show ?thesis using ok by (simp add: canvas_complete_def Let_def)
qed

lemma initElement_resolves:
  assumes "instances pg element = None" "text_to_image env element pg = Inr pg1"
    and "getAttribute pg1 element ''data-lettercrap'' = Some src" "src \<noteq> []"
    and "loadImage env src = Some img"
    and "render_settings_ok env element pg1" "canvas_complete env element img"
  shows "\<exists>pgB text. initElement env element pg = (Resolved, pgB) \<and>
           instances pgB = (instances pg)(element \<mapsto> \<lparr>intervalId = fresh pg1 + 1, observer = fresh pg1\<rparr>) \<and>
           intervals pgB = insert (fresh pg1 + 1) (intervals pg1) \<and>
           observers pgB = (observers pg1)(fresh pg1 := {element}) \<and>
           textContent pgB = (textContent pg1)(element := Some text) \<and>
           config pgB = config pg1 \<and> attributes pgB = attributes pg1"
proof -
  from render_resolves [OF assms(6,7)] obtain tx pg2 where
    r: "render env element img pg1 = (Inr \<lparr>intervalId = fresh pg1 + 1, observer = fresh pg1\<rparr>, pg2)"
    and pg2: "config pg2 = config pg1" "attributes pg2 = attributes pg1"
      "instances pg2 = instances pg1"
      "intervals pg2 = insert (fresh pg1 + 1) (intervals pg1)"
      "observers pg2 = (observers pg1)(fresh pg1 := {element})"
      "textContent pg2 = (textContent pg1)(element := Some tx)"
    by blast
  have "instances pg1 = instances pg" using text_to_image_Inr(2) [OF assms(2)] .
  then have "initElement env element pg =
      (Resolved, pg2\<lparr>instances := (instances pg2)(element \<mapsto>
         \<lparr>intervalId = fresh pg1 + 1, observer = fresh pg1\<rparr>)\<rparr>)"
    using assms(1-5) r by (simp add: initElement_def)
  then show ?thesis
    using pg2 \<open>instances pg1 = instances pg\<close>
    by (intro exI [of _ "pg2\<lparr>instances := (instances pg2)(element \<mapsto>
         \<lparr>intervalId = fresh pg1 + 1, observer = fresh pg1\<rparr>)\<rparr>"] exI [of _ tx]) simp
qed

lemma initElement_Resolved:
  assumes "instances pg element = None" "initElement env element pg = (Resolved, pgA)"
  shows "\<exists>pg1 src img. text_to_image env element pg = Inr pg1 \<and>
           getAttribute pg1 element ''data-lettercrap'' = Some src \<and> src \<noteq> [] \<and>
           loadImage env src = Some img \<and>
           render_settings_ok env element pg1 \<and> canvas_complete env element img"
proof -
  from assms obtain pg1 src img m pg2 where
    1: "text_to_image env element pg = Inr pg1"
      "getAttribute pg1 element ''data-lettercrap'' = Some src" "src \<noteq> []"
      "loadImage env src = Some img" "render env element img pg1 = (Inr m, pg2)"
    by (auto simp: initElement_def split: sum.splits option.splits if_splits prod.splits)
  with render_Inr [OF 1(5)] show ?thesis by blast
qed

lemma render_deterministic_fields:
  assumes "render env element img pg = (Inr m, pg2)"
  shows "config pg2 = config pg \<and> attributes pg2 = attributes pg \<and> instances pg2 = instances pg"
proof -
  from render_Inr [OF assms] have "render_settings_ok env element pg" "canvas_complete env element img"
    by simp_all
  from render_resolves [OF this] assms show ?thesis by auto
qed

lemma initElement_Resolved_page:
  assumes "instances pg element = None" "initElement env element pg = (Resolved, pgA)"
  shows "\<exists>pg1. text_to_image env element pg = Inr pg1 \<and>
           config pgA = config pg1 \<and> attributes pgA = attributes pg1 \<and>
           instances pgA element \<noteq> None"
proof -
  from assms obtain pg1 src img m pg2 where
    1: "text_to_image env element pg = Inr pg1"
      "render env element img pg1 = (Inr m, pg2)"
      "pgA = pg2\<lparr>instances := (instances pg2)(element \<mapsto> m)\<rparr>"
    by (auto simp: initElement_def split: sum.splits option.splits if_splits prod.splits)
  with render_deterministic_fields [OF 1(2)] show ?thesis by simp
qed

text \<open>The element of the example page activates.\<close>

lemma page\<^sub>0_activates:
  "\<exists>pg' tx. initElement env\<^sub>0 7 page\<^sub>0 = (Resolved, pg') \<and>
     instances pg' = [7 \<mapsto> \<lparr>intervalId = 1, observer = 0\<rparr>] \<and> intervals pg' = {1} \<and>
     observers pg' = (\<lambda>_. {})(0 := {7}) \<and> textContent pg' = (\<lambda>_. None)(7 := Some tx) \<and>
     config pg' = config\<^sub>0 \<and> attributes pg' = attributes page\<^sub>0"
proof -
  have 1: "instances page\<^sub>0 7 = None" by (simp add: page\<^sub>0_def)
  have 2: "text_to_image env\<^sub>0 7 page\<^sub>0 = Inr page\<^sub>0"
    by (simp add: text_to_image_def getAttribute_def page\<^sub>0_def)
  have 3: "getAttribute page\<^sub>0 7 ''data-lettercrap'' = Some ''logo.png''"
    by (simp add: getAttribute_def page\<^sub>0_def)
  have 4: "''logo.png'' \<noteq> []" by simp
  have 5: "loadImage env\<^sub>0 ''logo.png'' = Some ''logo.png''" by (simp add: env\<^sub>0_def)
  have 6: "render_settings_ok env\<^sub>0 7 page\<^sub>0"
    by (simp add: render_settings_ok_def getAttribute_def page\<^sub>0_def env\<^sub>0_def config\<^sub>0_def
          nullish_def isStringNonBlank_iff isArrayStringNonBlank_def trim_def isWhiteSpace_def)
  have 7: "canvas_complete env\<^sub>0 7 ''logo.png''"
    by (simp add: canvas_complete_def env\<^sub>0_def)
  from initElement_resolves [OF 1 2 3 4 5 6 7] show ?thesis
    by (simp add: page\<^sub>0_def)
qed

text \<open>
  After a reset the element activates again whenever a fresh activation with the same
  configuration and attributes does: the reset leaves the configuration and the
  attributes as they are, and the first frame of the new activation fails on no random
  sequence.
\<close>

lemma resetElement_registered:
  assumes "instances pg element = Some m"
  shows "resetElement element pg =
     (Resolved, pg\<lparr>intervals := intervals pg - {intervalId m},
                    observers := (observers pg)(observer m := {}),
                    instances := (instances pg)(element := None),
                    textContent := (textContent pg)(element := None),
                    style_height := (style_height pg)(element := '''')\<rparr>)"
  using assms by (simp add: resetElement_def destroy_def instanceofNode_def Let_def)

lemma reactivation:
  assumes "instances pg0 element = None" "initElement env element pg0 = (Resolved, pgA)"
    and "config pg = config pgA" "attributes pg element = attributes pgA element"
    and "instances pg element = Some m"
  shows "\<exists>pg' pg'' m' tx. resetElement element pg = (Resolved, pg') \<and>
           initElement env element pg' = (Resolved, pg'') \<and>
           instances pg'' element = Some m' \<and> intervalId m' \<in> intervals pg'' \<and>
           observers pg'' (observer m') = {element} \<and> textContent pg'' element = Some tx"
proof -
  from initElement_Resolved [OF assms(1,2)] obtain pg1 src img where
    t: "text_to_image env element pg0 = Inr pg1"
    and src: "getAttribute pg1 element ''data-lettercrap'' = Some src" "src \<noteq> []"
    and img: "loadImage env src = Some img"
    and ok: "render_settings_ok env element pg1" "canvas_complete env element img"
    by blast
  from initElement_Resolved_page [OF assms(1,2)] t have
    "config pgA = config pg1" "attributes pgA = attributes pg1" by auto
  then have same: "config pg = config pg1" "attributes pg element = attributes pg1 element"
    using assms(3,4) by simp_all
  define pg' where "pg' = pg\<lparr>intervals := intervals pg - {intervalId m},
                    observers := (observers pg)(observer m := {}),
                    instances := (instances pg)(element := None),
                    textContent := (textContent pg)(element := None),
                    style_height := (style_height pg)(element := '''')\<rparr>"
  have reset: "resetElement element pg = (Resolved, pg')"
    unfolding pg'_def by (rule resetElement_registered [OF assms(5)])
  have pg': "config pg' = config pg1" "attributes pg' element = attributes pg1 element"
    "instances pg' element = None"
    using same by (simp_all add: pg'_def)
  from text_to_image_again [OF t pg'(1,2)] obtain pg1' where
    t': "text_to_image env element pg' = Inr pg1'" and
    pg1': "config pg1' = config pg1" "attributes pg1' element = attributes pg1 element"
    by blast
  have src': "getAttribute pg1' element ''data-lettercrap'' = Some src"
    using src(1) pg1'(2) by (simp add: getAttribute_def)
  have ok': "render_settings_ok env element pg1'"
    using ok(1) render_settings_ok_cong [OF pg1'] by simp
  from initElement_resolves [OF pg'(3) t' src' src(2) img ok' ok(2)]
  obtain pgB tx where
    "initElement env element pg' = (Resolved, pgB)"
    "instances pgB = (instances pg')(element \<mapsto> \<lparr>intervalId = fresh pg1' + 1, observer = fresh pg1'\<rparr>)"
    "intervals pgB = insert (fresh pg1' + 1) (intervals pg1')"
    "observers pgB = (observers pg1')(fresh pg1' := {element})"
    "textContent pgB = (textContent pg1')(element := Some tx)"
    by blast
  then show ?thesis using reset
    by (intro exI [of _ pg'] exI [of _ pgB]
          exI [of _ "\<lparr>intervalId = fresh pg1' + 1, observer = fresh pg1'\<rparr>"] exI [of _ tx]) simp
qed

text \<open>The validation of \<open>configure\<close> in the words of the claims.\<close>

lemma isNumberNonNegative_iff:
  "isNumberNonNegative n \<longleftrightarrow> \<not> (is_negative n \<or> n = NaN)"
  by (cases n) auto

lemma isConfigValid_iff:
  "isConfigValid c \<longleftrightarrow>
     \<not> (is_blank (content c) \<or> is_blank (letters c) \<or> (\<exists>word\<in>set (words c). is_blank word) \<or>
        is_negative (update_interval c) \<or> update_interval c = NaN)"
  by (auto simp: isConfigValid_def isStringNonBlank_iff isArrayStringNonBlank_iff
        isNumberNonNegative_iff is_blank_def)

lemma text_to_image_invalid_font:
  assumes "getAttribute pg element ''data-lettercrap-text'' \<noteq> None"
    and "is_blank (nullish (getAttribute pg element ''data-lettercrap-font-family'')
                     (font_family (config pg))) \<or>
         nullish (getAttribute pg element ''data-lettercrap-font-weight'')
                     (font_weight (config pg)) \<notin> set fontWeights"
  shows "text_to_image env element pg = Inl InvalidSettings"
  using assms
  by (auto simp: text_to_image_def Let_def isStringNonBlank_iff is_blank_def)

section \<open>The claims\<close>

text \<open>
  C1. \<open>configure\<close> is atomic: when the update merged into the stored configuration is
  invalid, the call throws \<open>Invalid settings\<close> and the stored configuration is the one
  before the call; when it is valid, the call returns and every field of the store holds
  the update's value where the update provides one and its previous value otherwise. In
  particular an update whose content is the empty string throws and changes nothing.
\<close>

theorem configure_atomic:
  "(\<not> isConfigValid (preview cfg userConfig) \<longrightarrow>
      configure userConfig cfg = (Inl InvalidSettings, cfg)) \<and>
   (isConfigValid (preview cfg userConfig) \<longrightarrow>
      (\<exists>cfg'. configure userConfig cfg = (Inr (), cfg') \<and>
        content cfg' = (case content\<^sub>u userConfig of Some v \<Rightarrow> v | None \<Rightarrow> content cfg) \<and>
        letters cfg' = (case letters\<^sub>u userConfig of Some v \<Rightarrow> v | None \<Rightarrow> letters cfg) \<and>
        words cfg' = (case words\<^sub>u userConfig of Some v \<Rightarrow> v | None \<Rightarrow> words cfg) \<and>
        font_family cfg' =
          (case font_family\<^sub>u userConfig of Some v \<Rightarrow> v | None \<Rightarrow> font_family cfg) \<and>
        font_weight cfg' =
          (case font_weight\<^sub>u userConfig of Some v \<Rightarrow> v | None \<Rightarrow> font_weight cfg) \<and>
        update_interval cfg' =
          (case update_interval\<^sub>u userConfig of Some v \<Rightarrow> v | None \<Rightarrow> update_interval cfg))) \<and>
   configure (no_update\<lparr>content\<^sub>u := Some ''''\<rparr>) cfg = (Inl InvalidSettings, cfg)"
proof (intro conjI impI)
  assume "\<not> isConfigValid (preview cfg userConfig)"
  then show "configure userConfig cfg = (Inl InvalidSettings, cfg)"
    by (simp add: configure_def)
next
  assume "isConfigValid (preview cfg userConfig)"
  then have "configure userConfig cfg = (Inr (), preview cfg userConfig)"
    by (simp add: configure_def assign_all_keys)
  then show "\<exists>cfg'. configure userConfig cfg = (Inr (), cfg') \<and>
        content cfg' = (case content\<^sub>u userConfig of Some v \<Rightarrow> v | None \<Rightarrow> content cfg) \<and>
        letters cfg' = (case letters\<^sub>u userConfig of Some v \<Rightarrow> v | None \<Rightarrow> letters cfg) \<and>
        words cfg' = (case words\<^sub>u userConfig of Some v \<Rightarrow> v | None \<Rightarrow> words cfg) \<and>
        font_family cfg' =
          (case font_family\<^sub>u userConfig of Some v \<Rightarrow> v | None \<Rightarrow> font_family cfg) \<and>
        font_weight cfg' =
          (case font_weight\<^sub>u userConfig of Some v \<Rightarrow> v | None \<Rightarrow> font_weight cfg) \<and>
        update_interval cfg' =
          (case update_interval\<^sub>u userConfig of Some v \<Rightarrow> v | None \<Rightarrow> update_interval cfg)"
    by (simp add: preview_def)
next
  have "\<not> isConfigValid (preview cfg (no_update\<lparr>content\<^sub>u := Some ''''\<rparr>))"
    by (simp add: preview_def isConfigValid_def isStringNonBlank_def trim_def)
  then show "configure (no_update\<lparr>content\<^sub>u := Some ''''\<rparr>) cfg = (Inl InvalidSettings, cfg)"
    by (simp add: configure_def)
qed

text \<open>
  On the default configuration: blank letters are refused and the store keeps its
  letters; a new content and interval are accepted and stored, the other fields kept.
\<close>

theorem configure_atomic_witness:
  "configure (no_update\<lparr>letters\<^sub>u := Some ''  ''\<rparr>) config\<^sub>0 = (Inl InvalidSettings, config\<^sub>0) \<and>
   configure (no_update\<lparr>content\<^sub>u := Some ''HI'', update_interval\<^sub>u := Some (Num 0)\<rparr>) config\<^sub>0 =
     (Inr (), config\<^sub>0\<lparr>content := ''HI'', update_interval := Num 0\<rparr>)"
proof -
  let ?bad = "no_update\<lparr>letters\<^sub>u := Some ''  ''\<rparr>"
  let ?good = "no_update\<lparr>content\<^sub>u := Some ''HI'', update_interval\<^sub>u := Some (Num 0)\<rparr>"
  have bad: "\<not> isConfigValid (preview config\<^sub>0 ?bad)"
    by (simp add: preview_def isConfigValid_def isStringNonBlank_iff isWhiteSpace_def
          no_update_def config\<^sub>0_def)
  have good: "isConfigValid (preview config\<^sub>0 ?good)"
    by (simp add: preview_def isConfigValid_def isStringNonBlank_iff isWhiteSpace_def
          isArrayStringNonBlank_def no_update_def config\<^sub>0_def)
  from configure_atomic [of config\<^sub>0 ?bad] bad
  have 1: "configure ?bad config\<^sub>0 = (Inl InvalidSettings, config\<^sub>0)" by blast
  from configure_atomic [of config\<^sub>0 ?good] good
  obtain cfg' where c: "configure ?good config\<^sub>0 = (Inr (), cfg')"
    "content cfg' = ''HI''" "letters cfg' = letters config\<^sub>0" "words cfg' = words config\<^sub>0"
    "font_family cfg' = font_family config\<^sub>0" "font_weight cfg' = font_weight config\<^sub>0"
    "update_interval cfg' = Num 0"
    by (auto simp: no_update_def)
  then have "cfg' = config\<^sub>0\<lparr>content := ''HI'', update_interval := Num 0\<rparr>"
    by (cases cfg') (simp add: config\<^sub>0_def)
  with 1 c(1) show ?thesis by simp
qed

text \<open>
  C2, as stated, fails: the injection of a word does not depend on whether the cell's
  character was replaced. Line 341 calls \<open>shouldReplaceExistingText\<close> a second time,
  which draws afresh. Here the first draw is one half, so the only cell reuses the
  character \<open>x\<close> of the previous frame, and the later draws are 0, so the word \<open>A\<close>
  is injected over it.
\<close>

theorem reused_cell_word_counterexample:
  "\<not> fst (shouldReplaceExistingText (\<lambda>n. if n = 0 then 1 / 2 else 0) (Some ''x'') 0) \<and>
   emit_char (\<lambda>n. if n = 0 then 1 / 2 else 0) (Some ''x'') ''01'' 0 0 = (Some ''x'', 1) \<and>
   getTextContentWithImageAtSize (\<lambda>n. if n = 0 then 1 / 2 else 0)
     \<lparr>width = 1, height = 1, data = [0, 0, 0, 255]\<rparr> (Some ''x'') [''A''] ''01'' =
     Inr (''A'' @ [LF])"
  by code_simp

text \<open>
  C2, amended. At a filled cell a word is injected only when at least one word is
  configured, the draw of \<open>shouldReplaceWord\<close> is below 5% and a second, independent
  evaluation of \<open>shouldReplaceExistingText\<close> passes (there is no previous text, or a
  further draw is below 10%), whether the cell's own character was replaced or reused.
  \<open>n\<close> is the number of random calls made once the cell's character is emitted.
\<close>

theorem word_injection_gate:
  assumes "(c, n) = emit_char rnd e ltrs (idx s) (random_calls s)"
    and "chars (filled_cell rnd e wrds ltrs s) \<noteq> chars s @ to_string c"
  shows "wrds \<noteq> [] \<and> rnd n < 5 / 100 \<and> (falsy e \<or> rnd (Suc n) < 1 / 10)"
proof -
  have c: "c = fst (emit_char rnd e ltrs (idx s) (random_calls s))"
    and n: "n = snd (emit_char rnd e ltrs (idx s) (random_calls s))"
    using assms(1) by (metis fst_conv, metis snd_conv)
  have changed: "fst (inject_word rnd e wrds (idx s) (run_start s) (chars s @ to_string c) n) \<noteq>
      chars s @ to_string c"
    using assms(2) unfolding c n by (simp add: filled_cell_fields)
  with inject_word_cases [of rnd e wrds "idx s" "run_start s" "chars s @ to_string c" n]
  obtain word where "word \<in> set wrds" "rnd n < 5 / 100"
    "fst (shouldReplaceExistingText rnd e (Suc n))" by blast
  then show ?thesis by (auto simp: shouldReplaceExistingText_def split: if_splits)
qed

text \<open>The input of the counterexample: the word is injected and the three conditions hold.\<close>

theorem word_injection_gate_witness:
  "chars (filled_cell (\<lambda>n. if n = 0 then 1 / 2 else 0) (Some ''x'') [''A''] ''01'' loop\<^sub>0) = ''A'' \<and>
   [''A''] \<noteq> [] \<and> (if (1::nat) = 0 then 1 / 2 else (0::real)) < 5 / 100 \<and>
   (falsy (Some ''x'') \<or> (if Suc 1 = 0 then 1 / 2 else (0::real)) < 1 / 10)"
proof -
  let ?rnd = "\<lambda>n::nat. if n = 0 then 1 / 2 else (0::real)"
  have e: "(Some ''x'', 1) = emit_char ?rnd (Some ''x'') ''01'' (idx loop\<^sub>0) (random_calls loop\<^sub>0)"
    by code_simp
  have ch: "chars (filled_cell ?rnd (Some ''x'') [''A''] ''01'' loop\<^sub>0) = ''A''"
    by code_simp
  then have "chars (filled_cell ?rnd (Some ''x'') [''A''] ''01'' loop\<^sub>0) \<noteq>
      chars loop\<^sub>0 @ to_string (Some ''x'')"
    by (simp add: loop\<^sub>0_def to_string_def)
  from word_injection_gate [OF e this] ch show ?thesis by simp
qed

text \<open>
  C3. The claim is that a filled cell whose index lies beyond the stripped previous text
  always receives a palette character. The code has no such case: when the draw is not
  below 10%, line 340 reads the previous text out of range and appends the text
  \<open>undefined\<close>. Here the previous text has one character, both cells are filled and
  every draw is one half.
\<close>

theorem out_of_range_previous_index:
  "getTextContentWithImageAtSize (\<lambda>_. 1 / 2)
     \<lparr>width = 2, height = 1, data = [0, 0, 0, 255, 0, 0, 0, 255]\<rparr> (Some ''0'') [] ''01'' =
     Inr (''0undefined'' @ [LF]) \<and>
   is_filled \<lparr>width = 2, height = 1, data = [0, 0, 0, 255, 0, 0, 0, 255]\<rparr> 1 \<and>
   length (strip_line_breaks ''0'') \<le> 1"
  by code_simp

text \<open>
  C4. The classification of a cell depends on the red and alpha bytes of its sample
  only: the cell is filled exactly when red is below 120 and alpha is at least 50. So a
  sample with red 255 is never filled, one with red 0 and alpha 255 always is, and one
  with alpha 0 never is; the loop body emits through the filled branch exactly for the
  filled cells and a space otherwise.
\<close>

theorem cell_classification:
  assumes "take 4 (drop (k * 4) (data d)) = r # g # b # a # rest"
  shows "(is_filled d k \<longleftrightarrow> r < 120 \<and> 50 \<le> a) \<and>
         (r = 255 \<longrightarrow> \<not> is_filled d k) \<and>
         (r = 0 \<and> a = 255 \<longrightarrow> is_filled d k) \<and>
         (a = 0 \<longrightarrow> \<not> is_filled d k) \<and>
         (idx s = k \<longrightarrow>
            cell rnd d e wrds ltrs s =
              Inr (if r < 120 \<and> 50 \<le> a then filled_cell rnd e wrds ltrs s
                   else s\<lparr>chars := chars s @ '' '', start_of_filled_in_sequence := None,
                           idx := idx s + 1\<rparr>))"
  using assms by (auto simp: is_filled_def cell_def not_less)

text \<open>A raster of two cells: the first is dark and opaque, the second is red.\<close>

theorem cell_classification_witness:
  "is_filled \<lparr>width = 2, height = 1, data = [0, 7, 7, 255, 255, 0, 0, 255]\<rparr> 0 \<and>
   \<not> is_filled \<lparr>width = 2, height = 1, data = [0, 7, 7, 255, 255, 0, 0, 255]\<rparr> 1 \<and>
   cell (\<lambda>_. 1 / 2) \<lparr>width = 2, height = 1, data = [0, 7, 7, 255, 255, 0, 0, 255]\<rparr> None [] ''01''
     \<lparr>chars = ''1'', start_of_filled_in_sequence = Some 0, idx = 1, random_calls = 1\<rparr> =
   Inr \<lparr>chars = ''1 '', start_of_filled_in_sequence = None, idx = 2, random_calls = 1\<rparr>"
  using cell_classification [of 0 "\<lparr>width = 2, height = 1, data = [0, 7, 7, 255, 255, 0, 0, 255]\<rparr>"
      0 7 7 255 "[]" loop\<^sub>0]
    cell_classification [of 1 "\<lparr>width = 2, height = 1, data = [0, 7, 7, 255, 255, 0, 0, 255]\<rparr>"
      255 0 0 255 "[]"
      "\<lparr>chars = ''1'', start_of_filled_in_sequence = Some 0, idx = 1, random_calls = 1\<rparr>"
      "\<lambda>_. 1 / 2" None "[]" "''01''"]
  by simp

text \<open>
  C5, as stated, fails: with a word configured, a filled cell of the first frame can
  hold a character of an injected word that the palette does not have. Here the palette
  is \<open>01\<close>, the only word is \<open>AB\<close>, both cells are filled, and the fourth and fifth
  draws are 0: the word is injected at the second cell and the frame is \<open>AB\<close>.
\<close>

theorem first_frame_word_counterexample:
  "getTextContentWithImageAtSize (\<lambda>n. if n = 3 \<or> n = 4 then 0 else 1 / 2)
     \<lparr>width = 2, height = 1, data = [0, 0, 0, 255, 0, 0, 0, 255]\<rparr> None [''AB''] ''01'' =
     Inr (''AB'' @ [LF]) \<and>
   is_filled \<lparr>width = 2, height = 1, data = [0, 0, 0, 255, 0, 0, 0, 255]\<rparr> 0 \<and>
   CHR ''A'' \<notin> set ''01''"
  by code_simp

text \<open>
  C5, amended. When no previous text is supplied, every filled cell is given a palette
  character (the replacement never consults a draw), so for a non-empty palette and
  draws in \<open>[0, 1)\<close> the compositor returns \<open>height\<close> rows of \<open>width\<close> cells, each
  followed by a line feed, in which every empty cell is a space and every filled cell
  is a character of the palette or of a configured word injected over it; with no words
  configured every filled cell is a palette character.
\<close>

theorem first_frame_palette_or_word:
  assumes "width d * height d * 4 \<le> length (data d)"
    and "ltrs \<noteq> []" and "\<forall>n. 0 \<le> rnd n \<and> rnd n < 1"
  shows "\<exists>rows. getTextContentWithImageAtSize rnd d None wrds ltrs =
             Inr (concat (map (\<lambda>r. r @ [LF]) rows)) \<and>
           length rows = height d \<and>
           (\<forall>y<height d. length (rows ! y) = width d \<and>
              (\<forall>x<width d.
                 if is_filled d (y * width d + x)
                 then rows ! y ! x \<in> set ltrs \<union> (\<Union>word\<in>set wrds. set word)
                 else rows ! y ! x = CHR '' ''))"
  using first_frame_rows [OF assms(1) _ assms(2,3), of None wrds] by (simp add: falsy_def)

text \<open>
  The scenario of the specification at one random sequence: palette \<open>01\<close>, no words,
  three filled cells in one row, no previous text.
\<close>

theorem first_frame_palette_or_word_witness:
  "\<exists>r. getTextContentWithImageAtSize (\<lambda>_. 1 / 2)
          \<lparr>width = 3, height = 1, data = [0, 0, 0, 255, 0, 0, 0, 255, 0, 0, 0, 255]\<rparr> None [] ''01'' =
        Inr (r @ [LF]) \<and> length r = 3 \<and> set r \<subseteq> {CHR ''0'', CHR ''1''}"
proof -
  let ?d = "\<lparr>width = 3, height = 1, data = [0, 0, 0, 255, 0, 0, 0, 255, 0, 0, 0, 255 :: 8 word]\<rparr>"
  have h1: "width ?d * height ?d * 4 \<le> length (data ?d)" by simp
  have h2: "''01'' \<noteq> []" by simp
  have h3: "\<forall>n. 0 \<le> (\<lambda>_. 1 / 2 :: real) n \<and> (\<lambda>_. 1 / 2 :: real) n < 1" by simp
  have filled: "is_filled ?d x" if "x < 3" for x
    using that by (auto simp: is_filled_def less_Suc_eq numeral_3_eq_3)
  from first_frame_palette_or_word [OF h1 h2 h3, of "[]"]
  obtain rows where out: "getTextContentWithImageAtSize (\<lambda>_. 1 / 2) ?d None [] ''01'' =
             Inr (concat (map (\<lambda>r. r @ [LF]) rows))" and len: "length rows = height ?d"
    and row: "\<forall>y<height ?d. length (rows ! y) = width ?d \<and>
              (\<forall>x<width ?d.
                 if is_filled ?d (y * width ?d + x)
                 then rows ! y ! x \<in> set ''01'' \<union> (\<Union>word\<in>set []. set word)
                 else rows ! y ! x = CHR '' '')"
    by blast
  from len obtain r where r: "rows = [r]" by (cases rows) auto
  have l3: "length r = 3" using row r by simp
  have "r ! x \<in> {CHR ''0'', CHR ''1''}" if "x < 3" for x
    using row r that filled [OF that] by (auto split: if_splits)
  then have "set r \<subseteq> {CHR ''0'', CHR ''1''}"
    using l3 by (fastforce simp: in_set_conv_nth)
  then show ?thesis using out r l3 by auto
qed

text \<open>
  C6. When the previous text, with its line breaks stripped, covers every cell of the
  grid and no random draw falls below 10% (so that neither the replacement of a
  character nor the injection of a word ever fires), the compositor returns, row by
  row, the character of the stripped previous text at each filled cell's own absolute
  index and a space at each empty cell; every row is \<open>width\<close> characters followed by a
  line feed.
\<close>

theorem previous_frame_reproduced:
  assumes "width d * height d * 4 \<le> length (data d)"
    and "width d * height d \<le> length (strip_line_breaks t)"
    and "\<forall>n. \<not> rnd n < 1 / 10"
  shows "getTextContentWithImageAtSize rnd d (Some t) wrds ltrs =
     Inr (concat (map (\<lambda>y. map (\<lambda>k. if is_filled d k then strip_line_breaks t ! k else CHR '' '')
                            [y * width d..<y * width d + width d] @ [LF]) [0..<height d]))"
  using reuse_frame [OF assms, of wrds ltrs]
  by (auto simp: getTextContentWithImageAtSize_def)

text \<open>
  A grid of two rows and two columns whose second cell is empty, a previous frame with
  line breaks and every draw at one half.
\<close>

theorem previous_frame_reproduced_witness:
  "getTextContentWithImageAtSize (\<lambda>_. 1 / 2)
     \<lparr>width = 2, height = 2, data = [0, 0, 0, 255, 255, 255, 255, 255, 9, 9, 9, 200, 0, 0, 0, 255]\<rparr>
     (Some (''ab'' @ [LF] @ ''cd'' @ [LF])) [''hi''] ''01'' = Inr (''a '' @ [LF] @ ''cd'' @ [LF])"
  using previous_frame_reproduced [of
     "\<lparr>width = 2, height = 2, data = [0, 0, 0, 255, 255, 255, 255, 255, 9, 9, 9, 200, 0, 0, 0, 255]\<rparr>"
     "''ab'' @ [LF] @ ''cd'' @ [LF]" "\<lambda>_. 1 / 2" "[''hi'']" "''01''"]
  by (simp add: is_filled_def LF_def CR_def upt_conv_Cons)

text \<open>
  C7. At every filled cell a run of the compositor reaches, the text after the cell is
  either the text with the cell's character appended, or that text with its last
  \<open>length word\<close> characters replaced by a configured, non-empty word no longer than
  the current run (\<open>idx + 1 - run_start\<close>); the length of the text is the same either
  way. The run starts in the current row and all its cells are filled.
\<close>

theorem word_fits_run:
  assumes "visits rnd d e wrds ltrs y x s"
    and "cell rnd d e wrds ltrs s = Inr s'"
    and "is_filled d (idx s)"
    and "cs = chars s @ to_string (fst (emit_char rnd e ltrs (idx s) (random_calls s)))"
  shows "(chars s' = cs \<or>
              (\<exists>word\<in>set wrds. word \<noteq> [] \<and>
                 int (length word) \<le> int (idx s) + 1 - int (run_start s) \<and>
                 length word \<le> length cs \<and>
                 chars s' = take (length cs - length word) cs @ word)) \<and>
            length (chars s') = length cs \<and>
            y * width d \<le> run_start s \<and> run_start s \<le> idx s \<and>
            (\<forall>j. run_start s \<le> j \<and> j \<le> idx s \<longrightarrow> is_filled d j)"
proof -
  let ?cs = "chars s @ to_string (fst (emit_char rnd e ltrs (idx s) (random_calls s)))"
  have cs: "cs = ?cs" by (rule assms(4))
  let ?n = "snd (emit_char rnd e ltrs (idx s) (random_calls s))"
  note inv = visits_run [OF assms(1)]
  have s': "chars s' = fst (inject_word rnd e wrds (idx s) (run_start s) ?cs ?n)"
    using cell_Inr [OF assms(2)] assms(3) by (simp add: filled_cell_fields)
  have rs: "y * width d \<le> run_start s \<and> run_start s \<le> idx s \<and>
        (\<forall>j. run_start s \<le> j \<and> j \<le> idx s \<longrightarrow> is_filled d j)"
  proof (intro conjI allI impI)
    show "y * width d \<le> run_start s" "run_start s \<le> idx s"
      using inv by (cases "start_of_filled_in_sequence s"; simp add: run_start_def)+
    fix j assume j: "run_start s \<le> j \<and> j \<le> idx s"
    show "is_filled d j"
    proof (cases "j = idx s")
      case True
      then show ?thesis using assms(3) by simp
    next
      case False
      then have "j < idx s" using j by simp
      then show ?thesis using inv j
        by (cases "start_of_filled_in_sequence s") (simp_all add: run_start_def)
    qed
  qed
  have "idx s < length (chars s) +
        length (to_string (fst (emit_char rnd e ltrs (idx s) (random_calls s))))"
    using inv to_string_emit_nonempty [of rnd e ltrs "idx s" "random_calls s"] by linarith
  then have lt: "idx s < length ?cs" by simp
  have len: "length (chars s') = length ?cs"
    using s' lt rs by (simp add: inject_word_length)
  have "chars s' = ?cs \<or>
        (\<exists>word\<in>set wrds. word \<noteq> [] \<and>
           int (length word) \<le> int (idx s) + 1 - int (run_start s) \<and>
           length word \<le> length ?cs \<and>
           chars s' = take (length ?cs - length word) ?cs @ word)"
    using inject_word_cases [of rnd e wrds "idx s" "run_start s" ?cs ?n]
  proof
    assume "fst (inject_word rnd e wrds (idx s) (run_start s) ?cs ?n) = ?cs"
    then show ?thesis using s' by simp
  next
    assume "\<exists>word\<in>set wrds. word \<noteq> [] \<and>
        int (length word) \<le> int (idx s) + 1 - int (run_start s) \<and>
        rnd ?n < 5 / 100 \<and> fst (shouldReplaceExistingText rnd e (Suc ?n)) \<and>
        fst (inject_word rnd e wrds (idx s) (run_start s) ?cs ?n) =
          take (length ?cs - length word) ?cs @ word"
    then obtain word where w: "word \<in> set wrds" "word \<noteq> []"
      "int (length word) \<le> int (idx s) + 1 - int (run_start s)"
      "fst (inject_word rnd e wrds (idx s) (run_start s) ?cs ?n) =
          take (length ?cs - length word) ?cs @ word"
      by blast
    have "length word \<le> length ?cs" using w(3) lt by linarith
    with w s' show ?thesis by metis
  qed
  then show ?thesis using len rs unfolding cs by blast
qed

text \<open>
  A grid of one filled cell, the word \<open>A\<close> and every draw 0: the run has length one
  and the word replaces the character just emitted.
\<close>

theorem word_fits_run_witness:
  "visits (\<lambda>_. 0) \<lparr>width = 1, height = 1, data = [0, 0, 0, 255]\<rparr> None [''A''] ''0'' 0 0 loop\<^sub>0 \<and>
   cell (\<lambda>_. 0) \<lparr>width = 1, height = 1, data = [0, 0, 0, 255]\<rparr> None [''A''] ''0'' loop\<^sub>0 =
     Inr \<lparr>chars = ''A'', start_of_filled_in_sequence = Some 0, idx = 1, random_calls = 3\<rparr> \<and>
   emit_char (\<lambda>_. 0) None ''0'' 0 0 = (Some ''0'', 1) \<and>
   length (chars \<lparr>chars = ''A'', start_of_filled_in_sequence = Some 0, idx = 1, random_calls = 3\<rparr>) =
     length ''0'' \<and>
   run_start loop\<^sub>0 \<le> idx loop\<^sub>0"
proof -
  let ?d = "\<lparr>width = 1, height = 1, data = [0, 0, 0, 255 :: 8 word]\<rparr>"
  let ?s' = "\<lparr>chars = ''A'', start_of_filled_in_sequence = Some 0, idx = 1, random_calls = 3\<rparr>"
  have v: "visits (\<lambda>_. 0) ?d None [''A''] ''0'' 0 0 loop\<^sub>0" by (rule visits.start)
  have c: "cell (\<lambda>_. 0) ?d None [''A''] ''0'' loop\<^sub>0 = Inr ?s'" by code_simp
  have f: "is_filled ?d (idx loop\<^sub>0)" by code_simp
  have e: "emit_char (\<lambda>_. 0) None ''0'' 0 0 = (Some ''0'', 1)" by code_simp
  from word_fits_run [OF v c f refl]
  have "length (chars ?s') =
      length (chars loop\<^sub>0 @ to_string (fst (emit_char (\<lambda>_. 0) None ''0'' (idx loop\<^sub>0)
         (random_calls loop\<^sub>0))))"
    and "run_start loop\<^sub>0 \<le> idx loop\<^sub>0"
    by blast+
  then show ?thesis using v c e by (simp add: loop\<^sub>0_def to_string_def)
qed

text \<open>
  C8. \<open>initElement\<close> is idempotent: on an element that is in the registry it resolves
  and leaves the whole page as it is (no timer, observer or registry entry is added);
  so once a call has resolved, calling again, in whatever environment, resolves and
  changes nothing. The registry is a map from elements, which holds at most one entry
  for an element.
\<close>

theorem initElement_idempotent:
  "(instances pg element \<noteq> None \<longrightarrow> initElement env element pg = (Resolved, pg)) \<and>
   (initElement env element pg = (Resolved, pg') \<longrightarrow>
      initElement env element pg' = (Resolved, pg'))"
proof (intro conjI impI)
  assume "instances pg element \<noteq> None"
  then show "initElement env element pg = (Resolved, pg)" by (simp add: initElement_def)
next
  assume r: "initElement env element pg = (Resolved, pg')"
  show "initElement env element pg' = (Resolved, pg')"
  proof (cases "instances pg element")
    case None
    from initElement_Resolved_page [OF None r] have "instances pg' element \<noteq> None" by blast
    then show ?thesis by (simp add: initElement_def)
  next
    case (Some m)
    then have "pg' = pg" using r by (simp add: initElement_def)
    then show ?thesis using r by simp
  qed
qed

text \<open>The element of the example page, activated and then activated again.\<close>

theorem initElement_idempotent_witness:
  "\<exists>pg'. initElement env\<^sub>0 7 page\<^sub>0 = (Resolved, pg') \<and> instances pg' 7 \<noteq> None \<and>
     initElement env\<^sub>0 7 pg' = (Resolved, pg')"
proof -
  from page\<^sub>0_activates obtain pg' where
    r: "initElement env\<^sub>0 7 page\<^sub>0 = (Resolved, pg')"
    and i: "instances pg' = [7 \<mapsto> \<lparr>intervalId = 1, observer = 0\<rparr>]" by blast
  from initElement_idempotent [of page\<^sub>0 7 env\<^sub>0 pg'] r
  have "initElement env\<^sub>0 7 pg' = (Resolved, pg')" by blast
  moreover from initElement_idempotent [of pg' 7 env\<^sub>0 pg'] i
  have "initElement env\<^sub>0 7 pg' = (Resolved, pg')" by simp
  ultimately show ?thesis using r i by auto
qed

text \<open>
  C9. \<open>resetElement\<close> on an element without a registry entry rejects with \<open>Element not
  initialized\<close> and changes nothing. On a registered element it resolves, and the page
  differs in exactly this: the instance's timer no longer runs, its observer observes
  nothing, the registry entry is gone, the element's text content is null and its
  \<^verbatim>\<open>style.height\<close> is empty. Activating the element after the reset succeeds as a
  fresh activation does: whenever the activation of an unregistered element resolves on
  some page, resetting and activating the element resolves on every page where it is
  registered with the same configuration and the same attributes, whatever ticks,
  resizes or other activations have changed since, and registers it with a running
  timer, an observer on the element and a first frame as text content. The last part
  is the case of the very page an activation returned.
\<close>

theorem resetElement_spec:
  "(instances pg element = None \<longrightarrow>
      resetElement element pg = (Rejected ElementNotInitialized, pg)) \<and>
   (\<forall>m. instances pg element = Some m \<longrightarrow>
      resetElement element pg =
        (Resolved, pg\<lparr>intervals := intervals pg - {intervalId m},
                       observers := (observers pg)(observer m := {}),
                       instances := (instances pg)(element := None),
                       textContent := (textContent pg)(element := None),
                       style_height := (style_height pg)(element := '''')\<rparr>)) \<and>
   (\<forall>pg0 pgA m. instances pg0 element = None \<and> initElement env element pg0 = (Resolved, pgA) \<and>
        config pg = config pgA \<and> attributes pg element = attributes pgA element \<and>
        instances pg element = Some m \<longrightarrow>
      (\<exists>pg' pg'' m' tx. resetElement element pg = (Resolved, pg') \<and>
           initElement env element pg' = (Resolved, pg'') \<and>
           instances pg'' element = Some m' \<and> intervalId m' \<in> intervals pg'' \<and>
           observers pg'' (observer m') = {element} \<and> textContent pg'' element = Some tx)) \<and>
   (\<forall>pg0. instances pg0 element = None \<and> initElement env element pg0 = (Resolved, pg) \<longrightarrow>
      (\<exists>pg' pg'' m tx. resetElement element pg = (Resolved, pg') \<and>
           initElement env element pg' = (Resolved, pg'') \<and>
           instances pg'' element = Some m \<and> intervalId m \<in> intervals pg'' \<and>
           observers pg'' (observer m) = {element} \<and> textContent pg'' element = Some tx))"
proof (intro conjI allI impI)
  assume "instances pg element = None"
  then show "resetElement element pg = (Rejected ElementNotInitialized, pg)"
    by (simp add: resetElement_def)
next
  fix m assume "instances pg element = Some m"
  then show "resetElement element pg =
        (Resolved, pg\<lparr>intervals := intervals pg - {intervalId m},
                       observers := (observers pg)(observer m := {}),
                       instances := (instances pg)(element := None),
                       textContent := (textContent pg)(element := None),
                       style_height := (style_height pg)(element := '''')\<rparr>)"
    by (rule resetElement_registered)
next
  fix pg0 pgA m
  assume a: "instances pg0 element = None \<and> initElement env element pg0 = (Resolved, pgA) \<and>
        config pg = config pgA \<and> attributes pg element = attributes pgA element \<and>
        instances pg element = Some m"
  show "\<exists>pg' pg'' m' tx. resetElement element pg = (Resolved, pg') \<and>
           initElement env element pg' = (Resolved, pg'') \<and>
           instances pg'' element = Some m' \<and> intervalId m' \<in> intervals pg'' \<and>
           observers pg'' (observer m') = {element} \<and> textContent pg'' element = Some tx"
    by (rule reactivation [of pg0 element env pgA pg m]) (use a in simp_all)
next
  fix pg0 assume a: "instances pg0 element = None \<and> initElement env element pg0 = (Resolved, pg)"
  then have "instances pg element \<noteq> None"
    using initElement_Resolved_page [of pg0 element env pg] by blast
  then obtain m where m: "instances pg element = Some m" by blast
  show "\<exists>pg' pg'' m tx. resetElement element pg = (Resolved, pg') \<and>
           initElement env element pg' = (Resolved, pg'') \<and>
           instances pg'' element = Some m \<and> intervalId m \<in> intervals pg'' \<and>
           observers pg'' (observer m) = {element} \<and> textContent pg'' element = Some tx"
    by (rule reactivation [of pg0 element env pg pg m]) (use a m in simp_all)
qed

text \<open>
  On the example page: the element is not active at first; once activated it is reset
  and activated again, first at once, then from a page on which a later frame was
  written, the height was changed and another timer was started.
\<close>

theorem resetElement_spec_witness:
  "resetElement 7 page\<^sub>0 = (Rejected ElementNotInitialized, page\<^sub>0) \<and>
   (\<exists>pg pg' pg''. initElement env\<^sub>0 7 page\<^sub>0 = (Resolved, pg) \<and> instances pg 7 \<noteq> None \<and>
      intervals pg = {1} \<and> observers pg 0 = {7} \<and> textContent pg 7 \<noteq> None \<and>
      resetElement 7 pg = (Resolved, pg') \<and> instances pg' 7 = None \<and> intervals pg' = {} \<and>
      observers pg' 0 = {} \<and> textContent pg' 7 = None \<and> style_height pg' 7 = '''' \<and>
      initElement env\<^sub>0 7 pg' = (Resolved, pg'') \<and> instances pg'' 7 \<noteq> None) \<and>
   (\<exists>pg pg' pg''. initElement env\<^sub>0 7 page\<^sub>0 = (Resolved, pg) \<and>
      resetElement 7
        (pg\<lparr>textContent := (textContent pg)(7 := Some ''0''),
            style_height := (style_height pg)(7 := ''20px''),
            intervals := insert 5 (intervals pg), fresh := fresh pg + 4,
            frames := frames pg + 3\<rparr>) = (Resolved, pg') \<and>
      initElement env\<^sub>0 7 pg' = (Resolved, pg'') \<and> instances pg'' 7 \<noteq> None)"
proof -
  have none: "instances page\<^sub>0 7 = None" by (simp add: page\<^sub>0_def)
  from page\<^sub>0_activates obtain pg tx where
    r: "initElement env\<^sub>0 7 page\<^sub>0 = (Resolved, pg)"
    and pg: "instances pg = [7 \<mapsto> \<lparr>intervalId = 1, observer = 0\<rparr>]" "intervals pg = {1}"
      "observers pg = (\<lambda>_. {})(0 := {7})" "textContent pg = (\<lambda>_. None)(7 := Some tx)"
    by blast
  note spec = resetElement_spec [of pg 7 env\<^sub>0]
  have m: "instances pg 7 = Some \<lparr>intervalId = 1, observer = 0\<rparr>" using pg(1) by simp
  let ?pg' = "pg\<lparr>intervals := intervals pg - {intervalId \<lparr>intervalId = 1, observer = 0\<rparr>},
                 observers := (observers pg)(observer \<lparr>intervalId = 1, observer = 0\<rparr> := {}),
                 instances := (instances pg)(7 := None),
                 textContent := (textContent pg)(7 := None),
                 style_height := (style_height pg)(7 := '''')\<rparr>"
  from spec m have reset: "resetElement 7 pg = (Resolved, ?pg')" by blast
  from spec none r obtain pg1 pg'' m' where
    "resetElement 7 pg = (Resolved, pg1)" "initElement env\<^sub>0 7 pg1 = (Resolved, pg'')"
    "instances pg'' 7 = Some m'"
    by blast
  with reset have again: "initElement env\<^sub>0 7 ?pg' = (Resolved, pg'')" "instances pg'' 7 \<noteq> None"
    by simp_all
  have first: "resetElement 7 page\<^sub>0 = (Rejected ElementNotInitialized, page\<^sub>0)"
    using resetElement_spec [of page\<^sub>0 7 env\<^sub>0] none by blast
  have part1: "\<exists>pg pg' pg''. initElement env\<^sub>0 7 page\<^sub>0 = (Resolved, pg) \<and> instances pg 7 \<noteq> None \<and>
      intervals pg = {1} \<and> observers pg 0 = {7} \<and> textContent pg 7 \<noteq> None \<and>
      resetElement 7 pg = (Resolved, pg') \<and> instances pg' 7 = None \<and> intervals pg' = {} \<and>
      observers pg' 0 = {} \<and> textContent pg' 7 = None \<and> style_height pg' 7 = '''' \<and>
      initElement env\<^sub>0 7 pg' = (Resolved, pg'') \<and> instances pg'' 7 \<noteq> None"
    using r pg reset again
    by (intro conjI exI [of _ pg] exI [of _ ?pg'] exI [of _ pg'']) simp_all
  let ?later = "pg\<lparr>textContent := (textContent pg)(7 := Some ''0''),
            style_height := (style_height pg)(7 := ''20px''),
            intervals := insert 5 (intervals pg), fresh := fresh pg + 4,
            frames := frames pg + 3\<rparr>"
  have later: "config ?later = config pg" "attributes ?later 7 = attributes pg 7"
    "instances ?later 7 = Some \<lparr>intervalId = 1, observer = 0\<rparr>"
    using m by simp_all
  from resetElement_spec [of ?later 7 env\<^sub>0] none r later
  obtain pgL pgL'' mL where
    "resetElement 7 ?later = (Resolved, pgL)" "initElement env\<^sub>0 7 pgL = (Resolved, pgL'')"
    "instances pgL'' 7 = Some mL"
    by blast
  then have part2: "\<exists>pg pg' pg''. initElement env\<^sub>0 7 page\<^sub>0 = (Resolved, pg) \<and>
      resetElement 7
        (pg\<lparr>textContent := (textContent pg)(7 := Some ''0''),
            style_height := (style_height pg)(7 := ''20px''),
            intervals := insert 5 (intervals pg), fresh := fresh pg + 4,
            frames := frames pg + 3\<rparr>) = (Resolved, pg') \<and>
      initElement env\<^sub>0 7 pg' = (Resolved, pg'') \<and> instances pg'' 7 \<noteq> None"
    using r by (intro exI [of _ pg] exI [of _ pgL] exI [of _ pgL'']) simp
  from first part1 part2 show ?thesis by blast
qed

text \<open>
  C10, as stated, fails at one value: an update interval of \<^verbatim>\<open>NaN\<close> is not negative,
  yet \<^verbatim>\<open>NaN >= 0\<close> is false and \<open>configure\<close> throws. Here the update sets the interval
  of the default configuration to \<^verbatim>\<open>NaN\<close>; nothing is blank.
\<close>

theorem configure_NaN_counterexample:
  "fst (configure (no_update\<lparr>update_interval\<^sub>u := Some NaN\<rparr>) config\<^sub>0) = Inl InvalidSettings \<and>
   \<not> is_blank (content (preview config\<^sub>0 (no_update\<lparr>update_interval\<^sub>u := Some NaN\<rparr>))) \<and>
   \<not> is_blank (letters (preview config\<^sub>0 (no_update\<lparr>update_interval\<^sub>u := Some NaN\<rparr>))) \<and>
   \<not> (\<exists>word\<in>set (words (preview config\<^sub>0 (no_update\<lparr>update_interval\<^sub>u := Some NaN\<rparr>))).
        is_blank word) \<and>
   \<not> is_negative (update_interval (preview config\<^sub>0 (no_update\<lparr>update_interval\<^sub>u := Some NaN\<rparr>)))"
  by (simp add: configure_def preview_def no_update_def config\<^sub>0_def isConfigValid_def
        is_blank_def isWhiteSpace_def)

text \<open>
  C10, amended. \<open>configure\<close> throws \<open>Invalid settings\<close> exactly when, in the merged
  configuration, the content is blank, the letters are blank, some word is blank, or
  the update interval is not at least zero (it is negative or \<^verbatim>\<open>NaN\<close>). The
  validation does not read the font family and the font weight: changing them never
  changes its verdict, and on a valid configuration any two strings are accepted and
  stored for them. The initialization of an element does check them: an unregistered
  element with the attribute \<^verbatim>\<open>data-lettercrap-text\<close> whose resolved font family is
  blank or whose resolved font weight is not one of the thirteen weights is rejected
  with \<open>Invalid settings\<close> and the page stays as it is.
\<close>

theorem configure_validation:
  "(fst (configure userConfig cfg) = Inl InvalidSettings \<longleftrightarrow>
      is_blank (content (preview cfg userConfig)) \<or>
      is_blank (letters (preview cfg userConfig)) \<or>
      (\<exists>word\<in>set (words (preview cfg userConfig)). is_blank word) \<or>
      is_negative (update_interval (preview cfg userConfig)) \<or>
      update_interval (preview cfg userConfig) = NaN) \<and>
   isConfigValid (c\<lparr>font_family := family, font_weight := weight\<rparr>) = isConfigValid c \<and>
   (isConfigValid cfg \<longrightarrow>
      configure (no_update\<lparr>font_family\<^sub>u := Some family, font_weight\<^sub>u := Some weight\<rparr>) cfg =
        (Inr (), cfg\<lparr>font_family := family, font_weight := weight\<rparr>)) \<and>
   (getAttribute pg element ''data-lettercrap-text'' \<noteq> None \<and> instances pg element = None \<and>
      (is_blank (nullish (getAttribute pg element ''data-lettercrap-font-family'')
                   (font_family (config pg))) \<or>
       nullish (getAttribute pg element ''data-lettercrap-font-weight'')
                   (font_weight (config pg)) \<notin> set fontWeights) \<longrightarrow>
      initElement env element pg = (Rejected InvalidSettings, pg))"
proof (intro conjI impI)
  show "fst (configure userConfig cfg) = Inl InvalidSettings \<longleftrightarrow>
      is_blank (content (preview cfg userConfig)) \<or>
      is_blank (letters (preview cfg userConfig)) \<or>
      (\<exists>word\<in>set (words (preview cfg userConfig)). is_blank word) \<or>
      is_negative (update_interval (preview cfg userConfig)) \<or>
      update_interval (preview cfg userConfig) = NaN"
    using isConfigValid_iff [of "preview cfg userConfig"] by (simp add: configure_def)
next
  show "isConfigValid (c\<lparr>font_family := family, font_weight := weight\<rparr>) = isConfigValid c"
    by (simp add: isConfigValid_def)
next
  assume valid: "isConfigValid cfg"
  let ?u = "no_update\<lparr>font_family\<^sub>u := Some family, font_weight\<^sub>u := Some weight\<rparr>"
  have p: "preview cfg ?u = cfg\<lparr>font_family := family, font_weight := weight\<rparr>"
    by (simp add: preview_def no_update_def)
  then have "isConfigValid (preview cfg ?u)" using valid by (simp add: isConfigValid_def)
  then show "configure ?u cfg = (Inr (), cfg\<lparr>font_family := family, font_weight := weight\<rparr>)"
    using p by (simp add: configure_def assign_all_keys)
next
  assume a: "getAttribute pg element ''data-lettercrap-text'' \<noteq> None \<and> instances pg element = None \<and>
      (is_blank (nullish (getAttribute pg element ''data-lettercrap-font-family'')
                   (font_family (config pg))) \<or>
       nullish (getAttribute pg element ''data-lettercrap-font-weight'')
                   (font_weight (config pg)) \<notin> set fontWeights)"
  then have "text_to_image env element pg = Inl InvalidSettings"
    by (intro text_to_image_invalid_font) simp_all
  then show "initElement env element pg = (Rejected InvalidSettings, pg)"
    using a by (simp add: initElement_def)
qed

text \<open>
  On the default configuration: an interval of -1 is refused; a blank font family and
  the weight \<open>heavy\<close> are accepted and stored; an element with a text attribute is then
  refused by \<open>initElement\<close>.
\<close>

theorem configure_validation_witness:
  "fst (configure (no_update\<lparr>update_interval\<^sub>u := Some (Num (- 1))\<rparr>) config\<^sub>0) =
     Inl InvalidSettings \<and>
   configure (no_update\<lparr>font_family\<^sub>u := Some '' '', font_weight\<^sub>u := Some ''heavy''\<rparr>) config\<^sub>0 =
     (Inr (), config\<^sub>0\<lparr>font_family := '' '', font_weight := ''heavy''\<rparr>) \<and>
   initElement env\<^sub>0 8
     (page\<^sub>0\<lparr>config := config\<^sub>0\<lparr>font_family := '' '', font_weight := ''heavy''\<rparr>,
            attributes := (attributes page\<^sub>0)(8 := [''data-lettercrap-text'' \<mapsto> ''HI''])\<rparr>) =
     (Rejected InvalidSettings,
      page\<^sub>0\<lparr>config := config\<^sub>0\<lparr>font_family := '' '', font_weight := ''heavy''\<rparr>,
            attributes := (attributes page\<^sub>0)(8 := [''data-lettercrap-text'' \<mapsto> ''HI''])\<rparr>)"
proof -
  let ?pg = "page\<^sub>0\<lparr>config := config\<^sub>0\<lparr>font_family := '' '', font_weight := ''heavy''\<rparr>,
            attributes := (attributes page\<^sub>0)(8 := [''data-lettercrap-text'' \<mapsto> ''HI''])\<rparr>"
  note v = configure_validation [where cfg = "config\<^sub>0" and family = "'' ''"
      and weight = "''heavy''" and pg = ?pg and element = 8 and env = "env\<^sub>0"
      and userConfig = "no_update\<lparr>update_interval\<^sub>u := Some (Num (- 1))\<rparr>"]
  have neg: "is_negative (update_interval (preview config\<^sub>0
      (no_update\<lparr>update_interval\<^sub>u := Some (Num (- 1))\<rparr>)))"
    by (simp add: preview_def no_update_def)
  have valid: "isConfigValid config\<^sub>0"
    by (simp add: isConfigValid_def config\<^sub>0_def isStringNonBlank_iff isWhiteSpace_def
          isArrayStringNonBlank_def)
  have el: "getAttribute ?pg 8 ''data-lettercrap-text'' \<noteq> None" "instances ?pg 8 = None"
    "is_blank (nullish (getAttribute ?pg 8 ''data-lettercrap-font-family'')
                   (font_family (config ?pg)))"
    by (simp_all add: getAttribute_def page\<^sub>0_def nullish_def is_blank_def isWhiteSpace_def)
  from v neg have 1: "fst (configure (no_update\<lparr>update_interval\<^sub>u := Some (Num (- 1))\<rparr>) config\<^sub>0) =
     Inl InvalidSettings" by blast
  from v valid have 2: "configure (no_update\<lparr>font_family\<^sub>u := Some '' '', font_weight\<^sub>u := Some ''heavy''\<rparr>)
     config\<^sub>0 = (Inr (), config\<^sub>0\<lparr>font_family := '' '', font_weight := ''heavy''\<rparr>)" by blast
  from v el have 3: "initElement env\<^sub>0 8 ?pg = (Rejected InvalidSettings, ?pg)" by blast
  from 1 2 3 show ?thesis by blast
qed

end
